theory Spec2Isabelle
  imports Main "HOL-Library.Word"
begin

section \<open>Buffers, the key-value store and the hasher\<close>

text \<open>
  A Node \<open>Buffer\<close> is a list of bytes. The LevelUp database is a partial map from keys to
  values: \<open>db.put\<close> stores a value and is taken to succeed, \<open>db.get\<close> of a missing key
  rejects, which the tree turns into an empty buffer (\<open>.catch(() => Buffer.alloc(0))\<close>) or
  into \<open>undefined\<close> (\<open>.catch(() => { })\<close>). The tree's name is used as a key both as
  \<open>Buffer.from(name)\<close> (in \<open>new\<close>) and as the string itself (in \<open>writeMetaData\<close>); both are
  taken to address the same record. JavaScript numbers (depth, index, layer) are integers.
\<close>

type_synonym byte = "8 word"

type_synonym bytes = "byte list"

type_synonym store = "bytes \<rightharpoonup> bytes"

definition MAX_DEPTH :: int where
  "MAX_DEPTH = 32"

definition LEAF_BYTES :: nat where
  "LEAF_BYTES = 64"

definition Buffer_alloc :: "nat \<Rightarrow> bytes" where
  "Buffer_alloc n = replicate n 0"

definition Buffer_from :: "string \<Rightarrow> bytes" where
  "Buffer_from s = map of_char s"

text \<open>\<open>buf.slice(s, e)\<close> for \<open>0 \<le> s \<le> e\<close>: the end is clamped to the buffer.\<close>

definition slice :: "bytes \<Rightarrow> nat \<Rightarrow> nat \<Rightarrow> bytes" where
  "slice b s e = take (e - s) (drop s b)"

text \<open>\<open>src.copy(dst)\<close>: the first \<open>min (length src) (length dst)\<close> bytes of \<open>dst\<close> are overwritten.\<close>

definition copy_into :: "bytes \<Rightarrow> bytes \<Rightarrow> bytes" where
  "copy_into src dst = take (length dst) src @ drop (length src) dst"

text \<open>\<open>await db.get(key).catch(() => Buffer.alloc(0))\<close>\<close>

definition db_get :: "store \<Rightarrow> bytes \<Rightarrow> bytes" where
  "db_get db key = (case db key of None \<Rightarrow> Buffer_alloc 0 | Some d \<Rightarrow> d)"

text \<open>
  The class \<open>Sha256Hasher\<close> is imported by the tree but is not part of the sources; the
  tree only calls its two methods, which are parameters of the model.
\<close>

record hasher =
  hash :: "bytes \<Rightarrow> bytes"
  compress :: "bytes \<Rightarrow> bytes \<Rightarrow> bytes"

datatype error = BadDepth | RangeError

section \<open>The tree object\<close>

text \<open>The fields of a \<open>MerkleTree\<close> object; \<open>db\<close> is the state of the database it refers to.\<close>

record tree =
  db :: store
  name :: string
  depth :: int
  root :: bytes

text \<open>The constructor: \<open>Error('Bad depth')\<close> unless \<open>1 \<le> depth \<le> MAX_DEPTH\<close>; the root is
  \<open>Buffer.alloc(32)\<close> unless one is given.\<close>

definition MerkleTree_ctor :: "store \<Rightarrow> string \<Rightarrow> int \<Rightarrow> bytes option \<Rightarrow> error + tree" where
  "MerkleTree_ctor d n dep r =
     (if \<not> (dep \<ge> 1 \<and> dep \<le> MAX_DEPTH) then Inl BadDepth
      else Inr \<lparr>db = d, name = n, depth = dep,
                root = (case r of None \<Rightarrow> Buffer_alloc 32 | Some r' \<Rightarrow> r')\<rparr>)"

text \<open>Little-endian unsigned 32-bit fields of a buffer; both raise a \<open>RangeError\<close> when the
  four bytes do not lie inside the buffer, and the write also when the value is no \<open>u32\<close>.\<close>

definition le32 :: "int \<Rightarrow> bytes" where
  "le32 v = [word_of_int v, word_of_int (v div 2 ^ 8), word_of_int (v div 2 ^ 16),
             word_of_int (v div 2 ^ 24)]"

definition writeUInt32LE :: "bytes \<Rightarrow> int \<Rightarrow> nat \<Rightarrow> error + bytes" where
  "writeUInt32LE data v off =
     (if v < 0 \<or> v \<ge> 2 ^ 32 \<or> off + 4 > length data then Inl RangeError
      else Inr (take off data @ le32 v @ drop (off + 4) data))"

definition readUInt32LE :: "bytes \<Rightarrow> nat \<Rightarrow> error + int" where
  "readUInt32LE data off =
     (if off + 4 > length data then Inl RangeError
      else Inr (uint (data ! off) + uint (data ! (off + 1)) * 2 ^ 8
                + uint (data ! (off + 2)) * 2 ^ 16 + uint (data ! (off + 3)) * 2 ^ 24))"

text \<open>\<open>writeMetaData\<close> without a batch: a zeroed buffer of 40 bytes receives the root at offset
  0 and the depth at offset 32 and is put under the name.\<close>

definition writeMetaData :: "tree \<Rightarrow> error + tree" where
  "writeMetaData t =
     (let data = copy_into (root t) (Buffer_alloc 40) in
      case writeUInt32LE data (depth t) 32 of
        Inl e \<Rightarrow> Inl e
      | Inr data' \<Rightarrow> Inr (t\<lparr>db := (db t)(Buffer_from (name t) \<mapsto> data')\<rparr>))"

text \<open>The loop of \<open>createEmptyTree\<close>, \<open>n\<close> iterations from the current \<open>defaultNode\<close>: each
  iteration stores one record, the parent of two equal default nodes.\<close>

fun createEmptyTree_loop :: "hasher \<Rightarrow> nat \<Rightarrow> bytes \<Rightarrow> store \<Rightarrow> bytes \<times> store" where
  "createEmptyTree_loop H 0 defaultNode d = (defaultNode, d)"
| "createEmptyTree_loop H (Suc n) defaultNode d =
     (let parent = compress H defaultNode defaultNode
      in createEmptyTree_loop H n parent (d(parent \<mapsto> defaultNode @ defaultNode)))"

definition createEmptyTree :: "hasher \<Rightarrow> tree \<Rightarrow> error + tree" where
  "createEmptyTree H t =
     (let (r, d) = createEmptyTree_loop H (nat (depth t)) (hash H (Buffer_alloc LEAF_BYTES)) (db t)
      in writeMetaData (t\<lparr>db := d, root := r\<rparr>))"

text \<open>The static \<open>new\<close>: with metadata under the name the root and the depth are read from
  it and nothing is written; without, the tree is constructed with the caller's depth and
  initialised by \<open>createEmptyTree\<close>.\<close>

definition MerkleTree_new :: "hasher \<Rightarrow> store \<Rightarrow> string \<Rightarrow> int \<Rightarrow> error + tree" where
  "MerkleTree_new H d n dep =
     (case d (Buffer_from n) of
        Some meta \<Rightarrow>
          (case readUInt32LE meta 32 of
             Inl e \<Rightarrow> Inl e
           | Inr dep' \<Rightarrow> MerkleTree_ctor d n dep' (Some (slice meta 0 32)))
      | None \<Rightarrow>
          (case MerkleTree_ctor d n dep None of
             Inl e \<Rightarrow> Inl e
           | Inr t \<Rightarrow> createEmptyTree H t))"

definition getRoot :: "tree \<Rightarrow> bytes" where
  "getRoot t = root t"

text \<open>
  \<open>Math.floor(index / Math.pow(2, layer - 1)) % 2 === 0\<close> on integers. For \<open>layer \<le> 0\<close> the
  power is a fraction and the quotient is \<open>index * 2 ^ (1 - layer)\<close>. JavaScript's \<open>%\<close>
  takes the sign of the dividend.
\<close>

definition js_rem :: "int \<Rightarrow> int \<Rightarrow> int" where
  "js_rem a b = sgn a * (\<bar>a\<bar> mod \<bar>b\<bar>)"

definition isLeftNode :: "int \<Rightarrow> int \<Rightarrow> bool" where
  "isLeftNode index layer =
     (js_rem (if layer \<ge> 1 then index div 2 ^ nat (layer - 1)
              else index * 2 ^ nat (1 - layer)) 2 = 0)"

text \<open>
  The loop of \<open>getHashPath\<close>: \<open>n\<close> is the number of iterations left (\<open>i + 1\<close>), the other
  arguments are the loop's variables. A record that is not 64 bytes long adds no pair.
\<close>

fun getHashPath_loop ::
  "store \<Rightarrow> int \<Rightarrow> nat \<Rightarrow> (bytes \<times> bytes) list \<Rightarrow> bytes \<Rightarrow> int \<Rightarrow> (bytes \<times> bytes) list" where
  "getHashPath_loop d index 0 hashPath currentNode layer = hashPath"
| "getHashPath_loop d index (Suc n) hashPath currentNode layer =
     (let data = db_get d currentNode in
      if length data = 64 then
        (let leftNode = slice data 0 32; rightNode = slice data 32 64 in
         getHashPath_loop d index n (hashPath @ [(leftNode, rightNode)])
           (if isLeftNode index layer then leftNode else rightNode) (layer - 1))
      else getHashPath_loop d index n hashPath currentNode (layer - 1))"

definition getHashPath :: "tree \<Rightarrow> int \<Rightarrow> (bytes \<times> bytes) list" where
  "getHashPath t index = rev (getHashPath_loop (db t) index (nat (depth t)) [] (root t) (depth t))"

text \<open>
  The recursive descent of \<open>updateElement\<close>. The recursion follows the records of the store
  and need not end (a record may name itself as its child), so the result is an option:
  \<open>None\<close> is a call that never returns. \<open>this_root\<close> is the field \<open>this.root\<close>, which the last
  line of the source returns for a record that is neither empty nor 64 bytes long.
\<close>

partial_function (option) updateElementRecursively ::
  "hasher \<Rightarrow> bytes \<Rightarrow> store \<Rightarrow> bytes \<Rightarrow> int \<Rightarrow> bytes \<Rightarrow> int \<Rightarrow> (bytes \<times> store) option" where
  "updateElementRecursively H this_root d parent index val layer =
     (let data = db_get d parent in
      if length data = 0 then Some (hash H val, d)
      else if length data = 64 then
        (let leftNode = slice data 0 32; rightNode = slice data 32 64 in
         if isLeftNode index layer then
           Option.bind (updateElementRecursively H this_root d leftNode index val (layer - 1))
             (\<lambda>(updatedLeftNode, d').
                let newParent = compress H updatedLeftNode rightNode
                in Some (newParent, d'(newParent \<mapsto> updatedLeftNode @ rightNode)))
         else
           Option.bind (updateElementRecursively H this_root d rightNode index val (layer - 1))
             (\<lambda>(updatedRightNode, d').
                let newParent = compress H leftNode updatedRightNode
                in Some (newParent, d'(newParent \<mapsto> leftNode @ updatedRightNode))))
      else Some (this_root, d))"

text \<open>\<open>updateElement\<close> assigns the result of the descent to \<open>this.root\<close>, writes the metadata
  and returns the root.\<close>

definition updateElement :: "hasher \<Rightarrow> tree \<Rightarrow> int \<Rightarrow> bytes \<Rightarrow> (error + bytes \<times> tree) option" where
  "updateElement H t index val =
     (case updateElementRecursively H (root t) (db t) (root t) index val (depth t) of
        None \<Rightarrow> None
      | Some (r, d) \<Rightarrow>
          Some (case writeMetaData (t\<lparr>db := d, root := r\<rparr>) of
                  Inl e \<Rightarrow> Inl e
                | Inr t' \<Rightarrow> Inr (root t', t')))"

text \<open>
  The lookups of the descent of \<open>updateElementRecursively\<close>, in order: the same recursion with
  the same branches, keeping for each call its layer and the length of the record it fetched.
  In the source every call reads before it recurses and writes after the recursive call has
  returned, so all lookups see the store as it was when \<open>updateElement\<close> was called. The two
  recursions return together (\<open>descent_lookups_of_update\<close>, \<open>update_of_descent_lookups\<close>).
\<close>

partial_function (option) descent_lookups ::
  "store \<Rightarrow> bytes \<Rightarrow> int \<Rightarrow> int \<Rightarrow> (int \<times> nat) list option" where
  "descent_lookups d parent index layer =
     (let data = db_get d parent in
      if length data = 0 then Some [(layer, length data)]
      else if length data = 64 then
        (let leftNode = slice data 0 32; rightNode = slice data 32 64 in
         if isLeftNode index layer then
           Option.bind (descent_lookups d leftNode index (layer - 1))
             (\<lambda>below. Some ((layer, length data) # below))
         else
           Option.bind (descent_lookups d rightNode index (layer - 1))
             (\<lambda>below. Some ((layer, length data) # below)))
      else Some [(layer, length data)])"

section \<open>The stored tree as a tree of leaf values\<close>

text \<open>
  The definitions of this section are not code of the repository: they describe what a store
  holds, so that the behaviour of the code can be stated. The abstract state of a tree of depth
  \<open>D\<close> is the function \<open>vals\<close> from leaf positions to leaf values; \<open>mroot H vals k j\<close> is the
  hash of the node at layer \<open>k\<close> (0 = the leaves) and position \<open>j\<close> within its layer.
\<close>

text \<open>Both methods of the hasher return 32 bytes, as SHA-256 does and as the slices
  \<open>data.slice(0, 32)\<close> and \<open>data.slice(32, 64)\<close> of the code presuppose.\<close>

definition hasher_ok :: "hasher \<Rightarrow> bool" where
  "hasher_ok H = ((\<forall>x. length (hash H x) = 32) \<and> (\<forall>a b. length (compress H a b) = 32))"

fun mroot :: "hasher \<Rightarrow> (nat \<Rightarrow> bytes) \<Rightarrow> nat \<Rightarrow> nat \<Rightarrow> bytes" where
  "mroot H vals 0 j = hash H (vals j)"
| "mroot H vals (Suc k) j = compress H (mroot H vals k (2 * j)) (mroot H vals k (2 * j + 1))"

text \<open>The record of an internal node: the hashes of its two children, concatenated.\<close>

definition node_rec :: "hasher \<Rightarrow> (nat \<Rightarrow> bytes) \<Rightarrow> nat \<Rightarrow> nat \<Rightarrow> bytes" where
  "node_rec H vals k j = mroot H vals (k - 1) (2 * j) @ mroot H vals (k - 1) (2 * j + 1)"

text \<open>
  The store holds the subtree at layer \<open>k\<close>, position \<open>j\<close>: every internal node has its
  record under its own hash, and a lookup of a leaf hash finds nothing (leaf values are never
  stored). This is what \<open>createEmptyTree\<close> builds on a store that does not hold the default leaf
  hash; an update keeps it as long as no leaf hash becomes a key of the store
  (\<open>updateElement_tree_inv\<close>).
\<close>

fun stored :: "hasher \<Rightarrow> store \<Rightarrow> (nat \<Rightarrow> bytes) \<Rightarrow> nat \<Rightarrow> nat \<Rightarrow> bool" where
  "stored H d vals 0 j = (length (db_get d (mroot H vals 0 j)) = 0)"
| "stored H d vals (Suc k) j =
     (d (mroot H vals (Suc k) j) = Some (node_rec H vals (Suc k) j)
      \<and> stored H d vals k (2 * j) \<and> stored H d vals k (2 * j + 1))"

text \<open>The same condition for a single node; \<open>stored\<close> is \<open>node_ok\<close> for every node of the subtree.\<close>

definition node_ok :: "hasher \<Rightarrow> store \<Rightarrow> (nat \<Rightarrow> bytes) \<Rightarrow> nat \<Rightarrow> nat \<Rightarrow> bool" where
  "node_ok H d vals k j =
     (if k = 0 then length (db_get d (mroot H vals 0 j)) = 0
      else d (mroot H vals k j) = Some (node_rec H vals k j))"

text \<open>The leaf an index selects: only the low \<open>D\<close> bits of the index reach \<open>isLeftNode\<close>.\<close>

definition leaf_of :: "int \<Rightarrow> nat \<Rightarrow> nat" where
  "leaf_of index D = nat (index mod 2 ^ D)"

text \<open>The records an update writes for leaf \<open>i\<close>, bottom up: the nodes of the new tree on the
  path of the leaf, at layers 1 to \<open>k\<close>.\<close>

fun write_path :: "hasher \<Rightarrow> (nat \<Rightarrow> bytes) \<Rightarrow> nat \<Rightarrow> nat \<Rightarrow> store \<Rightarrow> store" where
  "write_path H vals i 0 d = d"
| "write_path H vals i (Suc k) d =
     (write_path H vals i k d)(mroot H vals (Suc k) (i div 2 ^ Suc k) \<mapsto> node_rec H vals (Suc k) (i div 2 ^ Suc k))"

text \<open>The two children of the ancestor of leaf \<open>i\<close> at layer \<open>m\<close>.\<close>

definition pair_at :: "hasher \<Rightarrow> (nat \<Rightarrow> bytes) \<Rightarrow> nat \<Rightarrow> nat \<Rightarrow> bytes \<times> bytes" where
  "pair_at H vals i m =
     (mroot H vals (m - 1) (2 * (i div 2 ^ m)), mroot H vals (m - 1) (2 * (i div 2 ^ m) + 1))"


text \<open>The nodes of a tree of depth \<open>D\<close> from layer \<open>lo\<close> upward, as (layer, position) pairs.\<close>

definition positions :: "nat \<Rightarrow> nat \<Rightarrow> (nat \<times> nat) list" where
  "positions lo D = concat (map (\<lambda>k. map (Pair k) [0..<2 ^ (D - k)]) [lo..<Suc D])"

text \<open>
  The store holds the record of every internal node of the tree of leaf values \<open>vals\<close>, under
  the hash of the node. Nothing is said about the leaf hashes.
\<close>

definition inner_stored :: "hasher \<Rightarrow> store \<Rightarrow> (nat \<Rightarrow> bytes) \<Rightarrow> nat \<Rightarrow> bool" where
  "inner_stored H d vals D =
     (\<forall>(k, j)\<in>set (positions 1 D). d (mroot H vals k j) = Some (node_rec H vals k j))"

text \<open>
  No collision among the internal nodes of the tree of leaf values \<open>vals\<close>: two internal nodes
  with the same hash have the same children (otherwise \<open>compress\<close> collides), and no internal
  node hash is the key \<open>nm\<close> of the metadata record, which is kept in the same store. A
  collision-resistant hasher is assumed to give this for the trees that occur; it cannot hold
  for all byte strings at once.
\<close>

definition nodes_distinct :: "hasher \<Rightarrow> bytes \<Rightarrow> (nat \<Rightarrow> bytes) \<Rightarrow> nat \<Rightarrow> bool" where
  "nodes_distinct H nm vals D =
     ((\<forall>(k, j)\<in>set (positions 1 D). \<forall>(k', j')\<in>set (positions 1 D).
         mroot H vals k j = mroot H vals k' j' \<longrightarrow> node_rec H vals k j = node_rec H vals k' j')
      \<and> (\<forall>(k, j)\<in>set (positions 1 D). mroot H vals k j \<noteq> nm))"

text \<open>
  The hash of leaf \<open>j\<close> is apart from the keys that an update writes: it is neither the key of
  the metadata record nor the hash of an internal node of the tree; \<open>leaves_apart\<close> says so for
  every leaf. This is not the absence of a collision. A hasher that compresses by hashing the
  concatenation, \<open>compress l r = hash (l @ r)\<close>, gives the 64-byte leaf value \<open>l @ r\<close> the hash of
  the node with the children \<open>l\<close> and \<open>r\<close>, and no two different inputs need to share a hash for
  that (\<open>cat_hasher\<close> below).
\<close>

definition leaf_apart :: "hasher \<Rightarrow> bytes \<Rightarrow> (nat \<Rightarrow> bytes) \<Rightarrow> nat \<Rightarrow> nat \<Rightarrow> bool" where
  "leaf_apart H nm vals D j =
     (mroot H vals 0 j \<noteq> nm
      \<and> (\<forall>(k', j')\<in>set (positions 1 D). mroot H vals 0 j \<noteq> mroot H vals k' j'))"

definition leaves_apart :: "hasher \<Rightarrow> bytes \<Rightarrow> (nat \<Rightarrow> bytes) \<Rightarrow> nat \<Rightarrow> bool" where
  "leaves_apart H nm vals D = (\<forall>j\<in>set [0..<2 ^ D]. leaf_apart H nm vals D j)"

text \<open>The 40 bytes that \<open>writeMetaData\<close> stores for a root and a depth in \<open>[0, 2^32)\<close>.\<close>

definition meta_record :: "bytes \<Rightarrow> int \<Rightarrow> bytes" where
  "meta_record r dep =
     take 32 (copy_into r (Buffer_alloc 40)) @ le32 dep @ drop 36 (copy_into r (Buffer_alloc 40))"

text \<open>The tree object \<open>t\<close> stands for the leaf values \<open>vals\<close>: its depth is legal, its root is
  the Merkle root of \<open>vals\<close> and its store holds the whole tree, no leaf hash being a key of
  the store.\<close>

definition tree_inv :: "hasher \<Rightarrow> tree \<Rightarrow> (nat \<Rightarrow> bytes) \<Rightarrow> bool" where
  "tree_inv H t vals =
     (1 \<le> depth t \<and> depth t \<le> 32 \<and> root t = mroot H vals (nat (depth t)) 0
      \<and> stored H (db t) vals (nat (depth t)) 0)"

text \<open>The same without the condition on the leaves: the depth is legal, the root is the Merkle
  root of \<open>vals\<close> and the store holds the record of every internal node. A leaf hash may be a
  key of the store. \<open>MerkleTree.new\<close> establishes this (\<open>new_nodes_inv\<close>), and an update keeps it
  when the hash of the leaf it replaces is not a key of the store (\<open>updateElement_nodes_inv\<close>).\<close>

definition nodes_inv :: "hasher \<Rightarrow> tree \<Rightarrow> (nat \<Rightarrow> bytes) \<Rightarrow> bool" where
  "nodes_inv H t vals =
     (1 \<le> depth t \<and> depth t \<le> 32 \<and> root t = mroot H vals (nat (depth t)) 0
      \<and> inner_stored H (db t) vals (nat (depth t)))"

text \<open>The default node of layer \<open>k\<close>: \<open>hash\<close> of 64 zero bytes, compressed with itself \<open>k\<close> times;
  and the store after the first \<open>k\<close> iterations of the loop of \<open>createEmptyTree\<close>.\<close>

fun default_node :: "hasher \<Rightarrow> nat \<Rightarrow> bytes" where
  "default_node H 0 = hash H (Buffer_alloc LEAF_BYTES)"
| "default_node H (Suc k) = compress H (default_node H k) (default_node H k)"

fun default_spine :: "hasher \<Rightarrow> nat \<Rightarrow> store \<Rightarrow> store" where
  "default_spine H 0 d = d"
| "default_spine H (Suc k) d =
     (default_spine H k d)(default_node H (Suc k) \<mapsto> default_node H k @ default_node H k)"

text \<open>The leaf values of an empty tree.\<close>

definition zero_vals :: "nat \<Rightarrow> bytes" where
  "zero_vals = (\<lambda>_. Buffer_alloc LEAF_BYTES)"

text \<open>
  Content addressing: every 64-byte record is stored under the compression of its two
  halves. \<open>node_writes H d d' nm\<close>: every key whose record differs between \<open>d\<close> and \<open>d'\<close> is the
  name key or holds \<open>l @ r\<close> under the key \<open>compress H l r\<close>.
\<close>

definition content_addressed :: "hasher \<Rightarrow> store \<Rightarrow> bool" where
  "content_addressed H d =
     (\<forall>key rec. d key = Some rec \<and> length rec = 64
        \<longrightarrow> key = compress H (slice rec 0 32) (slice rec 32 64))"

definition node_writes :: "hasher \<Rightarrow> store \<Rightarrow> store \<Rightarrow> bytes \<Rightarrow> bool" where
  "node_writes H d d' nm =
     (\<forall>key. d' key \<noteq> d key \<longrightarrow> key = nm \<or> (\<exists>l r. key = compress H l r \<and> d' key = Some (l @ r)))"

section \<open>Sample data\<close>

text \<open>
  Two small hashers on real byte strings and a few trees of depth 1 and 2, on which the model
  is run. Both hashers return 32 bytes, 31 of them zero, and neither has a collision on the
  handful of values used below. In \<open>demo_hasher\<close> the two methods are unrelated; \<open>cat_hasher\<close>
  compresses by hashing the concatenation of its two inputs.
\<close>

definition demo_hash :: "bytes \<Rightarrow> bytes" where
  "demo_hash v = replicate 31 0 @ [1 + (if v = [] then 0 else last v)]"

definition demo_compress :: "bytes \<Rightarrow> bytes \<Rightarrow> bytes" where
  "demo_compress l r = replicate 31 0 @ [last l + 2 * last r + 3]"

definition demo_hasher :: hasher where
  "demo_hasher = \<lparr>hash = demo_hash, compress = demo_compress\<rparr>"

definition demo_value :: bytes where
  "demo_value = replicate 64 1"


definition demo_key :: "byte \<Rightarrow> bytes" where
  "demo_key x = replicate 31 0 @ [x]"

text \<open>The tree that \<open>MerkleTree.new\<close> returns for the empty store, the name \<open>t\<close> and depth 2,
  and that tree after \<open>updateElement(0, demo_value)\<close>.\<close>

definition demo_tree :: tree where
  "demo_tree = \<lparr>db = (default_spine demo_hasher 2 Map.empty)
                        (Buffer_from ''t'' \<mapsto> meta_record (default_node demo_hasher 2) 2),
                 name = ''t'', depth = 2, root = default_node demo_hasher 2\<rparr>"

definition demo_tree1 :: tree where
  "demo_tree1 = \<lparr>db = (db demo_tree)
                     (demo_key 7 \<mapsto> demo_key 2 @ demo_key 1,
                      demo_key 22 \<mapsto> demo_key 7 @ demo_key 6,
                      Buffer_from ''t'' \<mapsto> demo_key 22 @ [2, 0, 0, 0] @ [0, 0, 0, 0]),
                  name = ''t'', depth = 2, root = demo_key 22\<rparr>"


definition corrupt_tree :: tree where
  "corrupt_tree = \<lparr>db = [Buffer_from ''t'' \<mapsto> demo_key 9 @ le32 1 @ [0, 0, 0, 0],
                          demo_key 9 \<mapsto> [1, 2, 3]],
                    name = ''t'', depth = 1, root = demo_key 9\<rparr>"

text \<open>
  The second hasher. Its hash reads the bytes 0, 31 and 63 of the input (0 where the input is
  shorter), and it compresses by hashing the concatenation of the two inputs, as a hasher
  built on one hash function does.
\<close>

definition byte_at :: "bytes \<Rightarrow> nat \<Rightarrow> byte" where
  "byte_at v n = (if n < length v then v ! n else 0)"

definition cat_hash :: "bytes \<Rightarrow> bytes" where
  "cat_hash v = demo_key (byte_at v 0 + byte_at v 31 + 2 * byte_at v 63 + 1)"

definition cat_compress :: "bytes \<Rightarrow> bytes \<Rightarrow> bytes" where
  "cat_compress l r = cat_hash (l @ r)"

definition cat_hasher :: hasher where
  "cat_hasher = \<lparr>hash = cat_hash, compress = cat_compress\<rparr>"









section \<open>Facts about the model\<close>

subsection \<open>Indices and layers\<close>

lemma length_mroot: "hasher_ok H \<Longrightarrow> length (mroot H vals k j) = 32"
  by (cases k) (simp_all add: hasher_ok_def)

lemma js_rem_2: "(js_rem a 2 = 0) = even a"
  by (auto simp: js_rem_def sgn_if even_iff_mod_2_eq_zero)

lemma isLeftNode_Suc: "isLeftNode index (int (Suc k)) = even (index div 2 ^ k)"
  by (simp add: isLeftNode_def js_rem_2)

lemma isLeftNode_nonpos: "layer \<le> 0 \<Longrightarrow> isLeftNode index layer"
  by (simp add: isLeftNode_def js_rem_2)

lemma even_leaf_of: "k < D \<Longrightarrow> even (leaf_of index D div 2 ^ k) = even (index div 2 ^ k)"
proof -
  assume k: "k < D"
  have "bit (nat (take_bit D index)) k = bit index k"
    using k by (simp add: bit_nat_iff bit_take_bit_iff)
  then show ?thesis
    by (simp add: leaf_of_def bit_iff_odd take_bit_eq_mod)
qed

lemma div_pow_Suc: "(i::nat) div 2 ^ Suc k = i div 2 ^ k div 2"
  by (metis div_mult2_eq power_Suc2)

lemma even_half: "even (n::nat) \<Longrightarrow> n div 2 = j \<Longrightarrow> n = 2 * j"
  by auto

lemma odd_half: "odd (n::nat) \<Longrightarrow> n div 2 = j \<Longrightarrow> n = 2 * j + 1"
  by (auto elim: oddE)

lemma mroot_frame: "i div 2 ^ k \<noteq> j \<Longrightarrow> mroot H (vals(i := v)) k j = mroot H vals k j"
proof (induction k arbitrary: j)
  case 0
  then show ?case by simp
next
  case (Suc k)
  have "i div 2 ^ k \<noteq> 2 * j" "i div 2 ^ k \<noteq> 2 * j + 1"
    using Suc.prems by (auto simp: div_pow_Suc simp del: power_Suc)
  then show ?case using Suc.IH by simp
qed

lemma slice_left: "length l = 32 \<Longrightarrow> slice (l @ r) 0 32 = l"
  by (simp add: slice_def)

lemma slice_right: "length l = 32 \<Longrightarrow> length r = 32 \<Longrightarrow> slice (l @ r) 32 64 = r"
  by (simp add: slice_def)

subsection \<open>The descent along a stored path\<close>

lemma upd_path:
  assumes H: "hasher_ok H"
    and leaf: "length (db_get d (hash H (vals (leaf_of index D)))) = 0"
    and path: "\<And>m. 1 \<le> m \<Longrightarrow> m \<le> D \<Longrightarrow>
        d (mroot H vals m (leaf_of index D div 2 ^ m)) = Some (node_rec H vals m (leaf_of index D div 2 ^ m))"
  shows "k \<le> D \<Longrightarrow>
    updateElementRecursively H r d (mroot H vals k (leaf_of index D div 2 ^ k)) index v (int k)
      = Some (mroot H (vals(leaf_of index D := v)) k (leaf_of index D div 2 ^ k),
              write_path H (vals(leaf_of index D := v)) (leaf_of index D) k d)"
proof (induction k)
  case 0
  then show ?case
    using leaf by (subst updateElementRecursively.simps) simp
next
  case (Suc k)
  let ?i = "leaf_of index D"
  let ?vals' = "vals(?i := v)"
  define j where "j = ?i div 2 ^ Suc k"
  have jd: "?i div 2 ^ Suc k = j" by (simp only: j_def)
  let ?L = "mroot H vals k (2 * j)" and ?R = "mroot H vals k (2 * j + 1)"
  have "d (mroot H vals (Suc k) (?i div 2 ^ Suc k)) = Some (node_rec H vals (Suc k) (?i div 2 ^ Suc k))"
    by (rule path) (use Suc.prems in simp_all)
  then have rec: "d (mroot H vals (Suc k) j) = Some (?L @ ?R)"
    by (simp add: node_rec_def jd del: power_Suc)
  have len: "length ?L = 32" "length ?R = 32" using H by (simp_all add: length_mroot)
  have get: "db_get d (mroot H vals (Suc k) j) = ?L @ ?R"
    using rec by (simp add: db_get_def)
  have kD: "k < D" "k \<le> D" using Suc.prems by simp_all
  have left: "isLeftNode index (int (Suc k)) = even (?i div 2 ^ k)"
    by (simp only: isLeftNode_Suc even_leaf_of[OF kD(1)])
  have jj: "?i div 2 ^ k div 2 = j"
    by (simp add: j_def div_pow_Suc del: power_Suc)
  have layer: "int (Suc k) - 1 = int k" by simp
  have main: "updateElementRecursively H r d (mroot H vals (Suc k) j) index v (int (Suc k))
      = Some (mroot H ?vals' (Suc k) j, write_path H ?vals' ?i (Suc k) d)"
  proof (cases "even (?i div 2 ^ k)")
    case True
    then have pos: "?i div 2 ^ k = 2 * j" using jj by (rule even_half)
    have other: "mroot H ?vals' k (2 * j + 1) = ?R"
      by (rule mroot_frame) (simp add: pos)
    have IH: "updateElementRecursively H r d ?L index v (int k)
       = Some (mroot H ?vals' k (2 * j), write_path H ?vals' ?i k d)"
      using Suc.IH[OF kD(2)] by (simp only: pos)
    show ?thesis
      apply (subst updateElementRecursively.simps)
      apply (simp only: get Let_def left True if_True layer slice_left[OF len(1)] slice_right[OF len] IH)
      using len jd other
      apply (simp add: node_rec_def)
      done
  next
    case False
    then have pos: "?i div 2 ^ k = 2 * j + 1" using jj by (rule odd_half)
    have other: "mroot H ?vals' k (2 * j) = ?L"
      by (rule mroot_frame) (simp add: pos)
    have IH: "updateElementRecursively H r d ?R index v (int k)
       = Some (mroot H ?vals' k (2 * j + 1), write_path H ?vals' ?i k d)"
      using Suc.IH[OF kD(2)] by (simp only: pos)
    show ?thesis
      apply (subst updateElementRecursively.simps)
      apply (simp only: get Let_def left False if_False layer slice_left[OF len(1)] slice_right[OF len] IH)
      using len jd other
      apply (simp add: node_rec_def)
      done
  qed
  then show ?case by (simp only: jd)
qed

lemma getHashPath_loop_path:
  assumes H: "hasher_ok H"
    and path: "\<And>m. 1 \<le> m \<Longrightarrow> m \<le> D \<Longrightarrow>
        d (mroot H vals m (leaf_of index D div 2 ^ m)) = Some (node_rec H vals m (leaf_of index D div 2 ^ m))"
  shows "k \<le> D \<Longrightarrow>
    getHashPath_loop d index k hp (mroot H vals k (leaf_of index D div 2 ^ k)) (int k)
      = hp @ map (pair_at H vals (leaf_of index D)) (rev [1..<Suc k])"
proof (induction k arbitrary: hp)
  case 0
  then show ?case by simp
next
  case (Suc k)
  let ?i = "leaf_of index D"
  define j where "j = ?i div 2 ^ Suc k"
  have jd: "?i div 2 ^ Suc k = j" by (simp only: j_def)
  let ?L = "mroot H vals k (2 * j)" and ?R = "mroot H vals k (2 * j + 1)"
  have "d (mroot H vals (Suc k) (?i div 2 ^ Suc k)) = Some (node_rec H vals (Suc k) (?i div 2 ^ Suc k))"
    by (rule path) (use Suc.prems in simp_all)
  then have rec: "d (mroot H vals (Suc k) j) = Some (?L @ ?R)"
    by (simp add: node_rec_def jd del: power_Suc)
  have len: "length ?L = 32" "length ?R = 32" using H by (simp_all add: length_mroot)
  have get: "db_get d (mroot H vals (Suc k) j) = ?L @ ?R"
    using rec by (simp add: db_get_def)
  have kD: "k < D" "k \<le> D" using Suc.prems by simp_all
  have left: "isLeftNode index (int (Suc k)) = even (?i div 2 ^ k)"
    by (simp only: isLeftNode_Suc even_leaf_of[OF kD(1)])
  have jj: "?i div 2 ^ k div 2 = j"
    by (simp add: j_def div_pow_Suc del: power_Suc)
  have layer: "int (Suc k) - 1 = int k" by simp
  have pair: "pair_at H vals ?i (Suc k) = (?L, ?R)"
    using jd by (simp add: pair_at_def)
  have upt: "rev [1..<Suc (Suc k)] = Suc k # rev [1..<Suc k]" by simp
  have main: "getHashPath_loop d index (Suc k) hp (mroot H vals (Suc k) j) (int (Suc k))
      = hp @ map (pair_at H vals ?i) (rev [1..<Suc (Suc k)])"
  proof (cases "even (?i div 2 ^ k)")
    case True
    then have pos: "?i div 2 ^ k = 2 * j" using jj by (rule even_half)
    have IH: "getHashPath_loop d index k (hp @ [(?L, ?R)]) ?L (int k)
        = (hp @ [(?L, ?R)]) @ map (pair_at H vals ?i) (rev [1..<Suc k])"
      using Suc.IH[OF kD(2), of "hp @ [(?L, ?R)]"] by (simp only: pos)
    show ?thesis
      apply (subst getHashPath_loop.simps)
      apply (simp only: get Let_def left True if_True layer slice_left[OF len(1)] slice_right[OF len] IH upt)
      using len pair apply simp
      done
  next
    case False
    then have pos: "?i div 2 ^ k = 2 * j + 1" using jj by (rule odd_half)
    have IH: "getHashPath_loop d index k (hp @ [(?L, ?R)]) ?R (int k)
        = (hp @ [(?L, ?R)]) @ map (pair_at H vals ?i) (rev [1..<Suc k])"
      using Suc.IH[OF kD(2), of "hp @ [(?L, ?R)]"] by (simp only: pos)
    show ?thesis
      apply (subst getHashPath_loop.simps)
      apply (simp only: get Let_def left False if_False layer slice_left[OF len(1)] slice_right[OF len] IH upt)
      using len pair apply simp
      done
  qed
  then show ?case by (simp only: jd)
qed

lemma leaf_of_less: "leaf_of index D < 2 ^ D"
proof -
  have "index mod 2 ^ D < 2 ^ D" by simp
  then show ?thesis unfolding leaf_of_def
    by (metis nat_less_iff Euclidean_Rings.pos_mod_sign zero_less_numeral zero_less_power of_nat_numeral of_nat_power)
qed


subsection \<open>Writing a path into the store\<close>

lemma in_positions: "((k, j) \<in> set (positions lo D)) = (lo \<le> k \<and> k \<le> D \<and> j < 2 ^ (D - k))"
  by (auto simp: positions_def)

lemma cf_same:
  "nodes_distinct H nm vals D \<Longrightarrow> 1 \<le> k \<Longrightarrow> k \<le> D \<Longrightarrow> j < 2 ^ (D - k) \<Longrightarrow>
   1 \<le> k' \<Longrightarrow> k' \<le> D \<Longrightarrow> j' < 2 ^ (D - k') \<Longrightarrow>
   mroot H vals k j = mroot H vals k' j' \<Longrightarrow> node_rec H vals k j = node_rec H vals k' j'"
  unfolding nodes_distinct_def
  by (metis (mono_tags, lifting) in_positions case_prodD)

lemma cf_name:
  "nodes_distinct H nm vals D \<Longrightarrow> 1 \<le> k \<Longrightarrow> k \<le> D \<Longrightarrow> j < 2 ^ (D - k) \<Longrightarrow> mroot H vals k j \<noteq> nm"
  unfolding nodes_distinct_def
  by (metis (mono_tags, lifting) in_positions case_prodD)

lemma cf_leaf:
  "leaf_apart H nm vals D j \<Longrightarrow> 1 \<le> k' \<Longrightarrow> k' \<le> D \<Longrightarrow> j' < 2 ^ (D - k') \<Longrightarrow>
   mroot H vals 0 j \<noteq> mroot H vals k' j'"
  unfolding leaf_apart_def
  by (metis (mono_tags, lifting) in_positions case_prodD)

lemma leaves_apartD: "leaves_apart H nm vals D \<Longrightarrow> j < 2 ^ D \<Longrightarrow> leaf_apart H nm vals D j"
  by (simp add: leaves_apart_def)

lemma inner_storedD:
  "inner_stored H d vals D \<Longrightarrow> 1 \<le> k \<Longrightarrow> k \<le> D \<Longrightarrow> j < 2 ^ (D - k) \<Longrightarrow>
   d (mroot H vals k j) = Some (node_rec H vals k j)"
  unfolding inner_stored_def
  by (metis (mono_tags, lifting) in_positions case_prodD)

lemma inner_storedI:
  "(\<And>k j. 1 \<le> k \<Longrightarrow> k \<le> D \<Longrightarrow> j < 2 ^ (D - k) \<Longrightarrow> d (mroot H vals k j) = Some (node_rec H vals k j))
   \<Longrightarrow> inner_stored H d vals D"
  unfolding inner_stored_def by (auto simp: in_positions)

lemma half_cases: "(n::nat) div 2 = j \<Longrightarrow> n = 2 * j \<or> n = 2 * j + 1"
  by auto

lemma stored_imp_node_ok:
  "stored H d vals k j \<Longrightarrow> k' \<le> k \<Longrightarrow> j' div 2 ^ (k - k') = j \<Longrightarrow> node_ok H d vals k' j'"
proof (induction k arbitrary: j)
  case 0
  then show ?case by (simp add: node_ok_def)
next
  case (Suc k)
  show ?case
  proof (cases "k' = Suc k")
    case True
    then show ?thesis using Suc.prems by (simp add: node_ok_def)
  next
    case False
    then have le: "k' \<le> k" using Suc.prems(2) by simp
    then have "Suc k - k' = Suc (k - k')" by simp
    then have "j' div 2 ^ (k - k') div 2 = j"
      using Suc.prems(3) by (simp add: div_pow_Suc del: power_Suc)
    then have "j' div 2 ^ (k - k') = 2 * j \<or> j' div 2 ^ (k - k') = 2 * j + 1"
      by (rule half_cases)
    then show ?thesis
      using Suc.IH[OF _ le] Suc.prems(1) by auto
  qed
qed

lemma node_ok_imp_stored:
  "(\<And>k' j'. k' \<le> k \<Longrightarrow> j' div 2 ^ (k - k') = j \<Longrightarrow> node_ok H d vals k' j') \<Longrightarrow> stored H d vals k j"
proof (induction k arbitrary: j)
  case 0
  then show ?case by (simp add: node_ok_def)
next
  case (Suc k)
  have top: "node_ok H d vals (Suc k) j" by (rule Suc.prems) simp_all
  have sub: "stored H d vals k c" if c: "c div 2 = j" for c
  proof (rule Suc.IH)
    fix k' j' assume le: "k' \<le> k" and j': "j' div 2 ^ (k - k') = c"
    have "Suc k - k' = Suc (k - k')" using le by simp
    then have "j' div 2 ^ (Suc k - k') = j"
      using j' c by (simp add: div_pow_Suc del: power_Suc)
    then show "node_ok H d vals k' j'" using le by (intro Suc.prems) simp_all
  qed
  have "stored H d vals k (2 * j)" "stored H d vals k (2 * j + 1)"
    by (rule sub, simp)+
  then show ?case using top by (simp add: node_ok_def)
qed

lemma div_pow_zero_iff: "((j::nat) div 2 ^ n = 0) = (j < 2 ^ n)"
  by (simp add: div_eq_0_iff)

lemma stored_root_iff:
  "stored H d vals D 0 = (\<forall>k\<le>D. \<forall>j<2 ^ (D - k). node_ok H d vals k j)"
proof
  assume "stored H d vals D 0"
  then show "\<forall>k\<le>D. \<forall>j<2 ^ (D - k). node_ok H d vals k j"
    by (auto intro: stored_imp_node_ok simp: div_pow_zero_iff)
next
  assume a: "\<forall>k\<le>D. \<forall>j<2 ^ (D - k). node_ok H d vals k j"
  show "stored H d vals D 0"
    by (rule node_ok_imp_stored) (use a in \<open>simp add: div_pow_zero_iff\<close>)
qed

lemma write_path_other:
  "(\<And>m. 1 \<le> m \<Longrightarrow> m \<le> k \<Longrightarrow> mroot H vals m (i div 2 ^ m) \<noteq> K) \<Longrightarrow> write_path H vals i k d K = d K"
proof (induction k)
  case 0
  then show ?case by simp
next
  case (Suc k)
  have ne: "mroot H vals (Suc k) (i div 2 ^ Suc k) \<noteq> K"
    by (rule Suc.prems) simp_all
  have "write_path H vals i k d K = d K"
    by (rule Suc.IH) (rule Suc.prems, simp_all)
  then show ?case using ne by (simp del: mroot.simps power_Suc)
qed

lemma write_path_hit:
  "(\<And>m. 1 \<le> m \<Longrightarrow> m \<le> k \<Longrightarrow> mroot H vals m (i div 2 ^ m) = K \<Longrightarrow> node_rec H vals m (i div 2 ^ m) = R)
   \<Longrightarrow> 1 \<le> m \<Longrightarrow> m \<le> k \<Longrightarrow> mroot H vals m (i div 2 ^ m) = K \<Longrightarrow> write_path H vals i k d K = Some R"
proof (induction k)
  case 0
  then show ?case by simp
next
  case (Suc k)
  show ?case
  proof (cases "mroot H vals (Suc k) (i div 2 ^ Suc k) = K")
    case True
    then have "node_rec H vals (Suc k) (i div 2 ^ Suc k) = R"
      by (intro Suc.prems(1)) simp_all
    then show ?thesis using True by (simp del: mroot.simps power_Suc)
  next
    case False
    then have "m \<noteq> Suc k" using Suc.prems(4) by auto
    then have mk: "m \<le> k" using Suc.prems(3) by simp
    have "write_path H vals i k d K = Some R"
      by (rule Suc.IH[OF _ Suc.prems(2) mk Suc.prems(4)]) (rule Suc.prems(1), simp_all)
    then show ?thesis using False by (simp del: mroot.simps power_Suc)
  qed
qed

lemma path_pos_less: "i < 2 ^ D \<Longrightarrow> m \<le> D \<Longrightarrow> (i::nat) div 2 ^ m < 2 ^ (D - m)"
proof -
  assume i: "i < 2 ^ D" and m: "m \<le> D"
  have "(2::nat) ^ D = 2 ^ m * 2 ^ (D - m)" using m by (simp add: power_add[symmetric])
  then show ?thesis using i by (simp add: less_mult_imp_div_less mult.commute)
qed

lemma inner_after_writes:
  assumes nd: "nodes_distinct H nm vals D"
    and i: "i < 2 ^ D"
    and inner: "\<And>k j. 1 \<le> k \<Longrightarrow> k \<le> D \<Longrightarrow> j < 2 ^ (D - k) \<Longrightarrow>
        (\<exists>m. 1 \<le> m \<and> m \<le> D \<and> mroot H vals m (i div 2 ^ m) = mroot H vals k j)
        \<or> d (mroot H vals k j) = Some (node_rec H vals k j)"
  shows "inner_stored H ((write_path H vals i D d)(nm \<mapsto> meta)) vals D"
proof (rule inner_storedI)
  fix k :: nat and j :: nat
  assume k1: "1 \<le> k" and k: "k \<le> D" and j: "j < 2 ^ (D - k)"
  let ?d' = "(write_path H vals i D d)(nm \<mapsto> meta)"
  let ?K = "mroot H vals k j"
  have pos: "i div 2 ^ m < 2 ^ (D - m)" if "m \<le> D" for m
    using i that by (rule path_pos_less)
  have nm: "?K \<noteq> nm" using nd k1 k j by (rule cf_name)
  then have d': "?d' ?K = write_path H vals i D d ?K" by simp
  have same: "node_rec H vals m (i div 2 ^ m) = node_rec H vals k j"
    if "1 \<le> m" "m \<le> D" "mroot H vals m (i div 2 ^ m) = ?K" for m
    by (rule cf_same[OF nd that(1,2) pos[OF that(2)] k1 k j that(3)])
  have "write_path H vals i D d ?K = Some (node_rec H vals k j)"
  proof (cases "\<exists>m. 1 \<le> m \<and> m \<le> D \<and> mroot H vals m (i div 2 ^ m) = ?K")
    case True
    then obtain m where m: "1 \<le> m" "m \<le> D" "mroot H vals m (i div 2 ^ m) = ?K" by blast
    show ?thesis
      by (rule write_path_hit[OF _ m]) (rule same)
  next
    case no: False
    then have "write_path H vals i D d ?K = d ?K"
      by (intro write_path_other) blast
    moreover have "d ?K = Some (node_rec H vals k j)"
      using inner[OF k1 k j] no by blast
    ultimately show ?thesis by simp
  qed
  then show "?d' ?K = Some (node_rec H vals k j)" using d' by simp
qed

lemma leaf_after_writes:
  assumes la: "leaf_apart H nm vals D j" and i: "i < 2 ^ D"
  shows "db_get ((write_path H vals i D d)(nm \<mapsto> meta)) (mroot H vals 0 j) = db_get d (mroot H vals 0 j)"
proof -
  have pos: "i div 2 ^ m < 2 ^ (D - m)" if "m \<le> D" for m
    using i that by (rule path_pos_less)
  have nm: "mroot H vals 0 j \<noteq> nm" using la by (simp add: leaf_apart_def)
  have "mroot H vals m (i div 2 ^ m) \<noteq> mroot H vals 0 j" if "1 \<le> m" "m \<le> D" for m
    using cf_leaf[OF la that pos[OF that(2)]] by simp
  then have "write_path H vals i D d (mroot H vals 0 j) = d (mroot H vals 0 j)"
    by (intro write_path_other)
  then show ?thesis using nm by (simp add: db_get_def)
qed

lemma stored_after_writes:
  assumes nd: "nodes_distinct H nm vals D" and la: "leaves_apart H nm vals D"
    and i: "i < 2 ^ D"
    and leaves: "\<And>j. j < 2 ^ D \<Longrightarrow> length (db_get d (mroot H vals 0 j)) = 0"
    and inner: "\<And>k j. 1 \<le> k \<Longrightarrow> k \<le> D \<Longrightarrow> j < 2 ^ (D - k) \<Longrightarrow>
        (\<exists>m. 1 \<le> m \<and> m \<le> D \<and> mroot H vals m (i div 2 ^ m) = mroot H vals k j)
        \<or> d (mroot H vals k j) = Some (node_rec H vals k j)"
  shows "stored H ((write_path H vals i D d)(nm \<mapsto> meta)) vals D 0"
  unfolding stored_root_iff
proof (intro allI impI)
  fix k :: nat and j :: nat
  assume k: "k \<le> D" and j: "j < 2 ^ (D - k)"
  let ?d' = "(write_path H vals i D d)(nm \<mapsto> meta)"
  show "node_ok H ?d' vals k j"
  proof (cases "k = 0")
    case True
    have "db_get ?d' (mroot H vals 0 j) = db_get d (mroot H vals 0 j)"
      by (rule leaf_after_writes[OF leaves_apartD[OF la] i]) (use j True in simp)
    then show ?thesis using True leaves j by (simp add: node_ok_def)
  next
    case False
    then have k1: "1 \<le> k" by simp
    have "inner_stored H ?d' vals D"
      using nd i inner by (rule inner_after_writes)
    then have "?d' (mroot H vals k j) = Some (node_rec H vals k j)"
      using k1 k j by (rule inner_storedD)
    then show ?thesis using False by (simp add: node_ok_def)
  qed
qed

subsection \<open>Metadata and the empty tree\<close>

lemma length_copy_into: "length (copy_into src dst) = length dst"
  by (simp add: copy_into_def)

lemma writeMetaData_ok:
  "1 \<le> depth t \<Longrightarrow> depth t \<le> 32 \<Longrightarrow>
   writeMetaData t = Inr (t\<lparr>db := (db t)(Buffer_from (name t) \<mapsto> meta_record (root t) (depth t))\<rparr>)"
  by (simp add: writeMetaData_def writeUInt32LE_def length_copy_into Buffer_alloc_def meta_record_def Let_def)

lemma replicate_4: "replicate 4 x = [x, x, x, x]"
  by (simp add: numeral_eq_Suc)

lemma meta_record_32:
  "length r = 32 \<Longrightarrow> meta_record r dep = r @ le32 dep @ [0, 0, 0, 0]"
  by (simp add: meta_record_def copy_into_def Buffer_alloc_def replicate_4)

lemma createEmptyTree_loop_spine:
  "createEmptyTree_loop H n (default_node H m) (default_spine H m d)
     = (default_node H (m + n), default_spine H (m + n) d)"
proof (induction n arbitrary: m)
  case 0
  then show ?case by simp
next
  case (Suc n)
  have "createEmptyTree_loop H n (default_node H (Suc m)) (default_spine H (Suc m) d)
      = (default_node H (Suc m + n), default_spine H (Suc m + n) d)"
    by (rule Suc.IH)
  moreover have "createEmptyTree_loop H (Suc n) (default_node H m) (default_spine H m d)
      = createEmptyTree_loop H n (default_node H (Suc m)) (default_spine H (Suc m) d)"
    by (simp add: Let_def)
  ultimately show ?case by (simp only: add_Suc_right add_Suc)
qed

lemma createEmptyTree_eq:
  "1 \<le> depth t \<Longrightarrow> depth t \<le> 32 \<Longrightarrow>
   createEmptyTree H t =
     Inr (t\<lparr>db := (default_spine H (nat (depth t)) (db t))
                    (Buffer_from (name t) \<mapsto> meta_record (default_node H (nat (depth t))) (depth t)),
            root := default_node H (nat (depth t))\<rparr>)"
  using createEmptyTree_loop_spine[of H "nat (depth t)" 0 "db t"]
  by (simp add: createEmptyTree_def writeMetaData_ok)

lemma default_node_funpow:
  "default_node H k = ((\<lambda>h. compress H h h) ^^ k) (hash H (replicate 64 0))"
  by (induction k) (simp_all add: Buffer_alloc_def LEAF_BYTES_def)

lemma mroot_zero_vals: "mroot H zero_vals k j = default_node H k"
  by (induction k arbitrary: j) (simp_all add: zero_vals_def)

lemma write_path_zero_vals: "write_path H zero_vals i k d = default_spine H k d"
  by (induction k) (simp_all add: mroot_zero_vals node_rec_def del: mroot.simps power_Suc)


subsection \<open>An update on a stored tree\<close>

lemma tree_inv_nodes: "tree_inv H t vals \<Longrightarrow> nodes_inv H t vals"
  unfolding tree_inv_def nodes_inv_def stored_root_iff
  by (auto intro!: inner_storedI simp: node_ok_def)

lemma tree_inv_leaf:
  "tree_inv H t vals \<Longrightarrow> j < 2 ^ nat (depth t) \<Longrightarrow> length (db_get (db t) (hash H (vals j))) = 0"
  unfolding tree_inv_def stored_root_iff
  by (auto simp: node_ok_def)

lemma nodes_inv_path:
  assumes inv: "nodes_inv H t vals" and m: "1 \<le> m" "m \<le> nat (depth t)"
  shows "db t (mroot H vals m (leaf_of index (nat (depth t)) div 2 ^ m))
     = Some (node_rec H vals m (leaf_of index (nat (depth t)) div 2 ^ m))"
proof -
  have "inner_stored H (db t) vals (nat (depth t))" using inv by (simp add: nodes_inv_def)
  then show ?thesis
    using m by (rule inner_storedD) (rule path_pos_less[OF leaf_of_less m(2)])
qed

lemma updateElement_nodes:
  assumes H: "hasher_ok H" and inv: "nodes_inv H t vals"
    and leaf: "length (db_get (db t) (hash H (vals (leaf_of index (nat (depth t)))))) = 0"
  shows "updateElement H t index v =
     Some (Inr (mroot H (vals(leaf_of index (nat (depth t)) := v)) (nat (depth t)) 0,
       t\<lparr>db := (write_path H (vals(leaf_of index (nat (depth t)) := v))
                    (leaf_of index (nat (depth t))) (nat (depth t)) (db t))
                 (Buffer_from (name t) \<mapsto>
                    meta_record (mroot H (vals(leaf_of index (nat (depth t)) := v)) (nat (depth t)) 0) (depth t)),
          root := mroot H (vals(leaf_of index (nat (depth t)) := v)) (nat (depth t)) 0\<rparr>))"
proof -
  let ?D = "nat (depth t)"
  have dep: "1 \<le> depth t" "depth t \<le> 32" and r: "root t = mroot H vals ?D 0"
    using inv by (simp_all add: nodes_inv_def)
  have zero: "leaf_of index ?D div 2 ^ ?D = 0"
    using leaf_of_less[of index ?D] by simp
  have D: "int ?D = depth t" using dep by simp
  have "updateElementRecursively H (root t) (db t) (mroot H vals ?D (leaf_of index ?D div 2 ^ ?D)) index v (int ?D)
      = Some (mroot H (vals(leaf_of index ?D := v)) ?D (leaf_of index ?D div 2 ^ ?D),
              write_path H (vals(leaf_of index ?D := v)) (leaf_of index ?D) ?D (db t))"
    by (rule upd_path[OF H leaf nodes_inv_path[OF inv] order_refl])
  then have "updateElementRecursively H (root t) (db t) (mroot H vals ?D 0) index v (int ?D)
      = Some (mroot H (vals(leaf_of index ?D := v)) ?D 0,
              write_path H (vals(leaf_of index ?D := v)) (leaf_of index ?D) ?D (db t))"
    by (simp only: zero)
  then show ?thesis
    using dep by (simp add: updateElement_def r D writeMetaData_ok)
qed

lemma updateElement_result:
  assumes H: "hasher_ok H" and inv: "tree_inv H t vals"
  shows "updateElement H t index v =
     Some (Inr (mroot H (vals(leaf_of index (nat (depth t)) := v)) (nat (depth t)) 0,
       t\<lparr>db := (write_path H (vals(leaf_of index (nat (depth t)) := v))
                    (leaf_of index (nat (depth t))) (nat (depth t)) (db t))
                 (Buffer_from (name t) \<mapsto>
                    meta_record (mroot H (vals(leaf_of index (nat (depth t)) := v)) (nat (depth t)) 0) (depth t)),
          root := mroot H (vals(leaf_of index (nat (depth t)) := v)) (nat (depth t)) 0\<rparr>))"
  by (rule updateElement_nodes[OF H tree_inv_nodes[OF inv] tree_inv_leaf[OF inv leaf_of_less]])






lemma new_tree_inv:
  assumes none: "d (Buffer_from n) = None" and dep: "1 \<le> dep" "dep \<le> 32"
    and nd: "nodes_distinct H (Buffer_from n) zero_vals (nat dep)"
    and la: "leaves_apart H (Buffer_from n) zero_vals (nat dep)"
    and fresh: "length (db_get d (hash H (Buffer_alloc LEAF_BYTES))) = 0"
    and new: "MerkleTree_new H d n dep = Inr t"
  shows "tree_inv H t zero_vals"
proof -
  let ?D = "nat dep"
  have t: "t = \<lparr>db = (default_spine H ?D d)(Buffer_from n \<mapsto> meta_record (default_node H ?D) dep),
               name = n, depth = dep, root = default_node H ?D\<rparr>"
    using new none dep
    by (simp add: MerkleTree_new_def MerkleTree_ctor_def MAX_DEPTH_def createEmptyTree_eq)
  have "stored H ((write_path H zero_vals 0 ?D d)(Buffer_from n \<mapsto> meta)) zero_vals ?D 0" for meta
  proof (rule stored_after_writes[OF nd la])
    show "(0::nat) < 2 ^ ?D" by simp
  next
    fix j :: nat
    show "length (db_get d (mroot H zero_vals 0 j)) = 0"
      using fresh by (simp add: zero_vals_def)
  next
    fix k j :: nat assume "1 \<le> k" "k \<le> ?D"
    then have "1 \<le> k \<and> k \<le> ?D \<and> mroot H zero_vals k (0 div 2 ^ k) = mroot H zero_vals k j"
      by (simp only: mroot_zero_vals simp_thms)
    then show "(\<exists>m. 1 \<le> m \<and> m \<le> ?D \<and> mroot H zero_vals m (0 div 2 ^ m) = mroot H zero_vals k j)
       \<or> d (mroot H zero_vals k j) = Some (node_rec H zero_vals k j)"
      by blast
  qed
  then show ?thesis
    using dep by (simp add: tree_inv_def t write_path_zero_vals mroot_zero_vals)
qed

lemma new_nodes_inv:
  assumes none: "d (Buffer_from n) = None" and dep: "1 \<le> dep" "dep \<le> 32"
    and nd: "nodes_distinct H (Buffer_from n) zero_vals (nat dep)"
    and new: "MerkleTree_new H d n dep = Inr t"
  shows "nodes_inv H t zero_vals"
proof -
  let ?D = "nat dep"
  have t: "t = \<lparr>db = (default_spine H ?D d)(Buffer_from n \<mapsto> meta_record (default_node H ?D) dep),
               name = n, depth = dep, root = default_node H ?D\<rparr>"
    using new none dep
    by (simp add: MerkleTree_new_def MerkleTree_ctor_def MAX_DEPTH_def createEmptyTree_eq)
  have "inner_stored H ((write_path H zero_vals 0 ?D d)(Buffer_from n \<mapsto> meta)) zero_vals ?D" for meta
  proof (rule inner_after_writes[OF nd])
    show "(0::nat) < 2 ^ ?D" by simp
  next
    fix k j :: nat assume "1 \<le> k" "k \<le> ?D"
    then have "1 \<le> k \<and> k \<le> ?D \<and> mroot H zero_vals k (0 div 2 ^ k) = mroot H zero_vals k j"
      by (simp only: mroot_zero_vals simp_thms)
    then show "(\<exists>m. 1 \<le> m \<and> m \<le> ?D \<and> mroot H zero_vals m (0 div 2 ^ m) = mroot H zero_vals k j)
       \<or> d (mroot H zero_vals k j) = Some (node_rec H zero_vals k j)"
      by blast
  qed
  then show ?thesis
    using dep by (simp add: nodes_inv_def t write_path_zero_vals mroot_zero_vals)
qed

subsection \<open>The sample trees\<close>

lemma demo_hasher_ok: "hasher_ok demo_hasher"
  by (simp add: hasher_ok_def demo_hasher_def demo_hash_def demo_compress_def)

lemma demo_hash_simps:
  "hash demo_hasher (replicate 64 x) = replicate 31 0 @ [1 + x]"
  "compress demo_hasher (replicate 31 0 @ [a]) (replicate 31 0 @ [b]) = replicate 31 0 @ [a + 2 * b + 3]"
  by (simp_all add: demo_hasher_def demo_hash_def demo_compress_def)

lemma demo_positions:
  "positions (Suc 0) 2 = [(Suc 0, 0), (Suc 0, Suc 0), (2, 0)]"
  "positions 0 2 = [(0, 0), (0, Suc 0), (0, 2), (0, 3), (Suc 0, 0), (Suc 0, Suc 0), (2, 0)]"
  by (simp_all add: positions_def upt_conv_Cons numeral_2_eq_2 numeral_3_eq_3)

lemma ball_less_4: "(\<forall>j\<in>{0..<4::nat}. P j) = (P 0 \<and> P (Suc 0) \<and> P 2 \<and> P 3)"
proof -
  have "{0..<4::nat} = {0, Suc 0, 2, 3}" by auto
  then show ?thesis by simp
qed

lemma spine2:
  "default_spine H 2 d =
     d(default_node H (Suc 0) \<mapsto> default_node H 0 @ default_node H 0,
       default_node H 2 \<mapsto> default_node H (Suc 0) @ default_node H (Suc 0))"
  by (simp add: numeral_2_eq_2)

lemma demo_key_ne_name: "replicate 31 (0::byte) @ [a] \<noteq> Buffer_from ''t''"
  by (simp add: Buffer_from_def)

lemma demo_nodes:
  "default_node demo_hasher 0 = replicate 31 0 @ [1]"
  "default_node demo_hasher (Suc 0) = replicate 31 0 @ [6]"
  "default_node demo_hasher 2 = replicate 31 0 @ [21]"
  by (simp_all add: numeral_2_eq_2 Buffer_alloc_def LEAF_BYTES_def demo_hash_simps)

lemma demo_tree_eq:
  "demo_tree = \<lparr>db = [replicate 31 0 @ [6] \<mapsto> (replicate 31 0 @ [1]) @ (replicate 31 0 @ [1]),
                        replicate 31 0 @ [21] \<mapsto> (replicate 31 0 @ [6]) @ (replicate 31 0 @ [6]),
                        Buffer_from ''t'' \<mapsto> (replicate 31 0 @ [21]) @ [2, 0, 0, 0] @ [0, 0, 0, 0]],
                 name = ''t'', depth = 2, root = replicate 31 0 @ [21]\<rparr>"
  by (simp add: demo_tree_def spine2 demo_nodes meta_record_32 le32_def del: default_node.simps)

lemma demo_cf0:
  "nodes_distinct demo_hasher (Buffer_from ''t'') zero_vals 2"
  "leaves_apart demo_hasher (Buffer_from ''t'') zero_vals 2"
  by (simp_all add: nodes_distinct_def leaves_apart_def leaf_apart_def demo_positions ball_less_4
        mroot_zero_vals node_rec_def demo_nodes demo_key_ne_name del: mroot.simps default_node.simps)

lemma demo_vals:
  "mroot demo_hasher (zero_vals(0 := demo_value)) 0 0 = replicate 31 0 @ [2]"
  "mroot demo_hasher (zero_vals(0 := demo_value)) 0 (Suc 0) = replicate 31 0 @ [1]"
  "mroot demo_hasher (zero_vals(0 := demo_value)) 0 2 = replicate 31 0 @ [1]"
  "mroot demo_hasher (zero_vals(0 := demo_value)) 0 3 = replicate 31 0 @ [1]"
  "mroot demo_hasher (zero_vals(0 := demo_value)) (Suc 0) 0 = replicate 31 0 @ [7]"
  "mroot demo_hasher (zero_vals(0 := demo_value)) (Suc 0) (Suc 0) = replicate 31 0 @ [6]"
  "mroot demo_hasher (zero_vals(0 := demo_value)) 2 0 = replicate 31 0 @ [22]"
  by (simp_all add: numeral_2_eq_2 numeral_3_eq_3 demo_value_def zero_vals_def Buffer_alloc_def LEAF_BYTES_def demo_hash_simps)


lemma demo_new: "MerkleTree_new demo_hasher Map.empty ''t'' 2 = Inr demo_tree"
  by (simp add: MerkleTree_new_def MerkleTree_ctor_def MAX_DEPTH_def createEmptyTree_eq demo_tree_def)

lemma demo_fresh0: "length (db_get Map.empty (hash demo_hasher (Buffer_alloc LEAF_BYTES))) = 0"
  by (simp add: db_get_def Buffer_alloc_def)

lemma demo_inv: "tree_inv demo_hasher demo_tree zero_vals"
  by (rule new_tree_inv[OF _ _ _ _ _ demo_fresh0 demo_new]) (simp_all add: demo_cf0)


subsection \<open>Reading the metadata back\<close>

lemma le32_read:
  assumes "0 \<le> v" "v < 2 ^ 32"
  shows "uint (word_of_int v :: byte) + uint (word_of_int (v div 2 ^ 8) :: byte) * 2 ^ 8
         + uint (word_of_int (v div 2 ^ 16) :: byte) * 2 ^ 16
         + uint (word_of_int (v div 2 ^ 24) :: byte) * 2 ^ 24 = v"
proof -
  define a where "a = v div 256"
  define b where "b = a div 256"
  define c where "c = b div 256"
  have v: "v = 256 * a + v mod 256" by (simp add: a_def)
  have a: "a = 256 * b + a mod 256" by (simp add: b_def)
  have b: "b = 256 * c + b mod 256" by (simp add: c_def)
  have b': "v div 65536 = b"
    using zdiv_zmult2_eq[of 256 v 256] by (simp add: a_def b_def)
  have c': "v div 16777216 = c"
    using zdiv_zmult2_eq[of 256 v 65536] b' by (simp add: c_def)
  have "0 \<le> c" "c < 256" using assms c' by simp_all
  then have c: "c mod 256 = c" by simp
  have "v mod 256 + (a mod 256) * 256 + (b mod 256) * 65536 + (c mod 256) * 16777216 = v"
    using v a b c by linarith
  then show ?thesis
    by (simp add: uint_word_of_int take_bit_eq_mod a_def[symmetric] b' c')
qed

lemma readUInt32LE_meta:
  assumes "length r = 32" "0 \<le> v" "v < 2 ^ 32"
  shows "readUInt32LE (r @ le32 v @ pad) 32 = Inr v"
  using assms le32_read[OF assms(2,3)]
  by (simp add: readUInt32LE_def le32_def nth_append)

subsection \<open>Hash paths\<close>

lemma leaf_of_in_range: "0 \<le> index \<Longrightarrow> index < 2 ^ D \<Longrightarrow> leaf_of index D = nat index"
  by (simp add: leaf_of_def)

lemma getHashPath_loop_nodes:
  assumes H: "hasher_ok H" and inv: "nodes_inv H t vals"
  shows "getHashPath_loop (db t) index (nat (depth t)) [] (root t) (depth t)
     = map (pair_at H vals (leaf_of index (nat (depth t)))) (rev [1..<Suc (nat (depth t))])"
proof -
  let ?D = "nat (depth t)"
  have dep: "1 \<le> depth t" and r: "root t = mroot H vals ?D 0"
    using inv by (simp_all add: nodes_inv_def)
  have zero: "leaf_of index ?D div 2 ^ ?D = 0"
    using leaf_of_less[of index ?D] by simp
  have D: "int ?D = depth t" using dep by simp
  have "getHashPath_loop (db t) index ?D [] (mroot H vals ?D (leaf_of index ?D div 2 ^ ?D)) (int ?D)
      = [] @ map (pair_at H vals (leaf_of index ?D)) (rev [1..<Suc ?D])"
    by (rule getHashPath_loop_path[OF H _ order_refl]) (rule nodes_inv_path[OF inv])
  then show ?thesis
    by (simp only: r D zero append_Nil)
qed

lemma getHashPath_nodes:
  assumes H: "hasher_ok H" and inv: "nodes_inv H t vals"
  shows "getHashPath t index
     = map (pair_at H vals (leaf_of index (nat (depth t)))) [1..<Suc (nat (depth t))]"
  by (simp only: getHashPath_def getHashPath_loop_nodes[OF H inv] rev_map[symmetric] rev_rev_ident)

lemma getHashPath_loop_tree_inv:
  assumes H: "hasher_ok H" and inv: "tree_inv H t vals"
  shows "getHashPath_loop (db t) index (nat (depth t)) [] (root t) (depth t)
     = map (pair_at H vals (leaf_of index (nat (depth t)))) (rev [1..<Suc (nat (depth t))])"
  by (rule getHashPath_loop_nodes[OF H tree_inv_nodes[OF inv]])

lemma getHashPath_tree_inv:
  assumes H: "hasher_ok H" and inv: "tree_inv H t vals"
  shows "getHashPath t index
     = map (pair_at H vals (leaf_of index (nat (depth t)))) [1..<Suc (nat (depth t))]"
  by (rule getHashPath_nodes[OF H tree_inv_nodes[OF inv]])








subsection \<open>Indices out of range\<close>

lemma leaf_of_mod: "leaf_of (index mod 2 ^ D) D = leaf_of index D"
  by (simp add: leaf_of_def)

lemma isLeftNode_mod:
  "k < D \<Longrightarrow> isLeftNode (index mod 2 ^ D) (int (Suc k)) = isLeftNode index (int (Suc k))"
  by (simp only: isLeftNode_Suc even_leaf_of[symmetric] leaf_of_mod)

lemma getHashPath_loop_mod:
  "n \<le> D \<Longrightarrow> getHashPath_loop d (index mod 2 ^ D) n hp cur (int n)
     = getHashPath_loop d index n hp cur (int n)"
proof (induction n arbitrary: hp cur)
  case 0
  then show ?case by simp
next
  case (Suc n)
  have n: "n < D" "n \<le> D" using Suc.prems by simp_all
  have layer: "int (Suc n) - 1 = int n" by simp
  show ?case
    by (simp only: getHashPath_loop.simps isLeftNode_mod[OF n(1)] layer Suc.IH[OF n(2)])
qed

lemma getHashPath_mod: "getHashPath t (index mod 2 ^ nat (depth t)) = getHashPath t index"
proof (cases "0 \<le> depth t")
  case True
  then have "int (nat (depth t)) = depth t" by simp
  then show ?thesis
    using getHashPath_loop_mod[of "nat (depth t)" "nat (depth t)" "db t" index "[]" "root t"]
    by (simp add: getHashPath_def)
next
  case False
  then have "nat (depth t) = 0" by simp
  then show ?thesis by (simp add: getHashPath_def)
qed

lemma write_path2:
  "write_path H vals i 2 d =
     d(mroot H vals (Suc 0) (i div 2) \<mapsto> node_rec H vals (Suc 0) (i div 2),
       mroot H vals 2 (i div 4) \<mapsto> node_rec H vals 2 (i div 4))"
  by (simp add: numeral_2_eq_2 del: mroot.simps)

lemma demo_update:
  assumes "leaf_of index 2 = 0"
  shows "updateElement demo_hasher demo_tree index demo_value = Some (Inr (demo_key 22, demo_tree1))"
proof -
  have d: "depth demo_tree = 2" "name demo_tree = ''t''" "nat 2 = 2" by (simp_all add: demo_tree_def)
  have len: "length (demo_key 22) = 32" by (simp add: demo_key_def)
  show ?thesis
    unfolding updateElement_result[OF demo_hasher_ok demo_inv] d assms write_path2
    by (simp add: demo_vals node_rec_def demo_tree1_def demo_key_def[symmetric] meta_record_32[OF len] le32_def
        del: mroot.simps)
     (simp add: demo_tree_def)
qed



lemma updateElementRecursively_falls_through:
  "length (db_get d parent) \<noteq> 0 \<Longrightarrow> length (db_get d parent) \<noteq> 64 \<Longrightarrow>
   updateElementRecursively H this_root d parent index val layer = Some (this_root, d)"
  by (subst updateElementRecursively.simps) (simp add: Let_def)

subsection \<open>Content addressing\<close>

lemma content_addressed_put_node:
  assumes "content_addressed H d" and "length a = 32 \<or> length b = 32 \<or> a = b"
  shows "content_addressed H (d(compress H a b \<mapsto> a @ b))"
proof -
  have "slice (a @ b) 0 32 = a \<and> slice (a @ b) 32 64 = b" if "length (a @ b) = 64"
  proof -
    have "length a = 32 \<and> length b = 32" using assms(2) that by auto
    then show ?thesis by (simp add: slice_def)
  qed
  then show ?thesis
    using assms(1) unfolding content_addressed_def by (auto simp del: length_append)
qed

lemma content_addressed_put_other:
  "content_addressed H d \<Longrightarrow> length rec \<noteq> 64 \<Longrightarrow> content_addressed H (d(k \<mapsto> rec))"
  unfolding content_addressed_def by auto

lemma node_writes_refl: "node_writes H d d nm"
  by (simp add: node_writes_def)

lemma node_writes_put_node:
  "node_writes H d d' nm \<Longrightarrow> node_writes H d (d'(compress H a b \<mapsto> a @ b)) nm"
  unfolding node_writes_def by auto

lemma node_writes_put_name:
  "node_writes H d d' nm \<Longrightarrow> node_writes H d (d'(nm \<mapsto> x)) nm"
  unfolding node_writes_def by auto

lemma length_meta_record: "length (meta_record r dep) = 40"
  by (simp add: meta_record_def le32_def length_copy_into Buffer_alloc_def)

lemma length_slice_right: "length data = 64 \<Longrightarrow> length (slice data 32 64) = 32"
  by (simp add: slice_def)

lemma length_slice_left: "length data = 64 \<Longrightarrow> length (slice data 0 32) = 32"
  by (simp add: slice_def)

lemma default_spine_content:
  "node_writes H d (default_spine H k d) nm
   \<and> (content_addressed H d \<longrightarrow> content_addressed H (default_spine H k d))"
proof (induction k)
  case 0
  then show ?case by (simp add: node_writes_refl)
next
  case (Suc k)
  let ?a = "default_node H k"
  have eq: "default_spine H (Suc k) d = (default_spine H k d)(compress H ?a ?a \<mapsto> ?a @ ?a)"
    by simp
  have "node_writes H d ((default_spine H k d)(compress H ?a ?a \<mapsto> ?a @ ?a)) nm"
    using Suc.IH by (intro node_writes_put_node) simp
  moreover have "content_addressed H ((default_spine H k d)(compress H ?a ?a \<mapsto> ?a @ ?a))"
    if "content_addressed H d"
    using Suc.IH that by (intro content_addressed_put_node) simp_all
  ultimately show ?case unfolding eq by blast
qed

lemma updateElementRecursively_content:
  assumes "updateElementRecursively H r d p i v l = Some y"
  shows "node_writes H d (snd y) nm \<and> (content_addressed H d \<longrightarrow> content_addressed H (snd y))"
proof (rule updateElementRecursively.raw_induct[where
      P = "\<lambda>H r d p i v l y. node_writes H d (snd y) nm
             \<and> (content_addressed H d \<longrightarrow> content_addressed H (snd y))", OF _ assms])
  fix f :: "hasher \<Rightarrow> bytes \<Rightarrow> store \<Rightarrow> bytes \<Rightarrow> int \<Rightarrow> bytes \<Rightarrow> int \<Rightarrow> (bytes \<times> store) option"
    and H r d p i v l y
  assume IH: "\<And>H r d p i v l y. f H r d p i v l = Some y \<Longrightarrow>
        node_writes H d (snd y) nm \<and> (content_addressed H d \<longrightarrow> content_addressed H (snd y))"
  let ?data = "db_get d p"
  let ?L = "slice ?data 0 32" and ?R = "slice ?data 32 64"
  assume eq: "(let data = db_get d p
      in if length data = 0 then Some (hash H v, d)
         else if length data = 64
              then let leftNode = slice data 0 32; rightNode = slice data 32 64
                   in if isLeftNode i l
                      then Option.bind (f H r d leftNode i v (l - 1))
                            (\<lambda>(updatedLeftNode, d').
                                let newParent = compress H updatedLeftNode rightNode
                                in Some (newParent, d'(newParent \<mapsto> updatedLeftNode @ rightNode)))
                      else Option.bind (f H r d rightNode i v (l - 1))
                            (\<lambda>(updatedRightNode, d').
                                let newParent = compress H leftNode updatedRightNode
                                in Some (newParent, d'(newParent \<mapsto> leftNode @ updatedRightNode)))
              else Some (r, d)) = Some y"
  show "node_writes H d (snd y) nm \<and> (content_addressed H d \<longrightarrow> content_addressed H (snd y))"
  proof (cases "length ?data = 64")
    case False
    then have "snd y = d" using eq by (auto simp: Let_def split: if_splits)
    then show ?thesis by (simp add: node_writes_refl)
  next
    case True
    note len = length_slice_left[OF True] length_slice_right[OF True]
    have ne: "db_get d p \<noteq> []" using True by auto
    show ?thesis
    proof (cases "isLeftNode i l")
      case left: True
      from eq True left ne obtain u d1 where
        sub: "f H r d ?L i v (l - 1) = Some (u, d1)"
        and y: "y = (compress H u ?R, d1(compress H u ?R \<mapsto> u @ ?R))"
        by (auto simp: Let_def bind_eq_Some_conv)
      from IH[OF sub] show ?thesis
        by (auto simp: y len intro!: node_writes_put_node content_addressed_put_node)
    next
      case right: False
      from eq True right ne obtain u d1 where
        sub: "f H r d ?R i v (l - 1) = Some (u, d1)"
        and y: "y = (compress H ?L u, d1(compress H ?L u \<mapsto> ?L @ u))"
        by (auto simp: Let_def bind_eq_Some_conv)
      from IH[OF sub] show ?thesis
        by (auto simp: y len intro!: node_writes_put_node content_addressed_put_node)
    qed
  qed
qed

lemma writeMetaData_content:
  assumes "writeMetaData t = Inr t'"
  shows "node_writes H d (db t) (Buffer_from (name t)) \<longrightarrow> node_writes H d (db t') (Buffer_from (name t))"
    and "content_addressed H (db t) \<longrightarrow> content_addressed H (db t')"
proof -
  obtain rec where t': "db t' = (db t)(Buffer_from (name t) \<mapsto> rec)" and len: "length rec = 40"
    using assms
    by (auto simp: writeMetaData_def Let_def writeUInt32LE_def length_copy_into Buffer_alloc_def le32_def
        split: if_splits)
  show "node_writes H d (db t) (Buffer_from (name t)) \<longrightarrow> node_writes H d (db t') (Buffer_from (name t))"
    by (simp add: t' node_writes_put_name)
  show "content_addressed H (db t) \<longrightarrow> content_addressed H (db t')"
    using len by (simp add: t' content_addressed_put_other)
qed

subsection \<open>The lookups of the descent\<close>


lemma descent_lookups_of_update:
  assumes "updateElementRecursively H r d p i v l = Some y"
  shows "\<exists>tr. descent_lookups d p i l = Some tr"
proof (rule updateElementRecursively.raw_induct[where
      P = "\<lambda>H r d p i v l y. \<exists>tr. descent_lookups d p i l = Some tr", OF _ assms])
  fix f :: "hasher \<Rightarrow> bytes \<Rightarrow> store \<Rightarrow> bytes \<Rightarrow> int \<Rightarrow> bytes \<Rightarrow> int \<Rightarrow> (bytes \<times> store) option"
    and H r d p i v l y
  assume IH: "\<And>H r d p i v l y. f H r d p i v l = Some y \<Longrightarrow> \<exists>tr. descent_lookups d p i l = Some tr"
  let ?data = "db_get d p"
  let ?L = "slice ?data 0 32" and ?R = "slice ?data 32 64"
  assume eq: "(let data = db_get d p
      in if length data = 0 then Some (hash H v, d)
         else if length data = 64
              then let leftNode = slice data 0 32; rightNode = slice data 32 64
                   in if isLeftNode i l
                      then Option.bind (f H r d leftNode i v (l - 1))
                            (\<lambda>(updatedLeftNode, d').
                                let newParent = compress H updatedLeftNode rightNode
                                in Some (newParent, d'(newParent \<mapsto> updatedLeftNode @ rightNode)))
                      else Option.bind (f H r d rightNode i v (l - 1))
                            (\<lambda>(updatedRightNode, d').
                                let newParent = compress H leftNode updatedRightNode
                                in Some (newParent, d'(newParent \<mapsto> leftNode @ updatedRightNode)))
              else Some (r, d)) = Some y"
  show "\<exists>tr. descent_lookups d p i l = Some tr"
  proof (cases "length ?data = 64")
    case False
    then show ?thesis
      by (subst descent_lookups.simps) (simp add: Let_def)
  next
    case True
    have ne: "db_get d p \<noteq> []" using True by auto
    show ?thesis
    proof (cases "isLeftNode i l")
      case left: True
      from eq True left ne obtain u d1 where "f H r d ?L i v (l - 1) = Some (u, d1)"
        by (auto simp: Let_def bind_eq_Some_conv)
      from IH[OF this] obtain tr where "descent_lookups d ?L i (l - 1) = Some tr" ..
      then show ?thesis
        using True left by (subst descent_lookups.simps) (simp add: Let_def)
    next
      case right: False
      from eq True right ne obtain u d1 where "f H r d ?R i v (l - 1) = Some (u, d1)"
        by (auto simp: Let_def bind_eq_Some_conv)
      from IH[OF this] obtain tr where "descent_lookups d ?R i (l - 1) = Some tr" ..
      then show ?thesis
        using True right by (subst descent_lookups.simps) (simp add: Let_def)
    qed
  qed
qed

lemma update_of_descent_lookups:
  assumes "descent_lookups d p i l = Some tr"
  shows "\<exists>y. updateElementRecursively H r d p i v l = Some y"
proof (rule descent_lookups.raw_induct[where
      P = "\<lambda>d p i l tr. \<exists>y. updateElementRecursively H r d p i v l = Some y", OF _ assms])
  fix g :: "store \<Rightarrow> bytes \<Rightarrow> int \<Rightarrow> int \<Rightarrow> (int \<times> nat) list option"
    and d p i l tr
  assume IH: "\<And>d p i l tr. g d p i l = Some tr \<Longrightarrow> \<exists>y. updateElementRecursively H r d p i v l = Some y"
  let ?data = "db_get d p"
  let ?L = "slice ?data 0 32" and ?R = "slice ?data 32 64"
  assume eq: "(let data = db_get d p
      in if length data = 0 then Some [(l, length data)]
         else if length data = 64
              then let leftNode = slice data 0 32; rightNode = slice data 32 64
                   in if isLeftNode i l
                      then Option.bind (g d leftNode i (l - 1)) (\<lambda>below. Some ((l, length data) # below))
                      else Option.bind (g d rightNode i (l - 1)) (\<lambda>below. Some ((l, length data) # below))
              else Some [(l, length data)]) = Some tr"
  show "\<exists>y. updateElementRecursively H r d p i v l = Some y"
  proof (cases "length ?data = 64")
    case False
    then show ?thesis
      by (subst updateElementRecursively.simps) (simp add: Let_def)
  next
    case True
    have ne: "db_get d p \<noteq> []" using True by auto
    show ?thesis
    proof (cases "isLeftNode i l")
      case left: True
      from eq True left ne obtain below where "g d ?L i (l - 1) = Some below"
        by (auto simp: Let_def bind_eq_Some_conv)
      from IH[OF this] obtain u d1 where "updateElementRecursively H r d ?L i v (l - 1) = Some (u, d1)"
        by force
      then show ?thesis
        using True left by (subst updateElementRecursively.simps) (auto simp: Let_def)
    next
      case right: False
      from eq True right ne obtain below where "g d ?R i (l - 1) = Some below"
        by (auto simp: Let_def bind_eq_Some_conv)
      from IH[OF this] obtain u d1 where "updateElementRecursively H r d ?R i v (l - 1) = Some (u, d1)"
        by force
      then show ?thesis
        using True right by (subst updateElementRecursively.simps) (auto simp: Let_def)
    qed
  qed
qed


subsection \<open>Runs with the concatenating hasher\<close>

lemma demo_key_simps:
  "length (demo_key a) = 32"
  "(demo_key a = demo_key b) = (a = b)"
  "demo_key a \<noteq> Buffer_from ''t''"
  "Buffer_from ''t'' \<noteq> demo_key a"
  "slice (demo_key a @ demo_key b) 0 32 = demo_key a"
  "slice (demo_key a @ demo_key b) 32 64 = demo_key b"
  by (simp_all add: demo_key_def Buffer_from_def slice_def)

lemma cat_hasher_ok: "hasher_ok cat_hasher"
  by (simp add: hasher_ok_def cat_hasher_def cat_hash_def cat_compress_def demo_key_simps)





















section \<open>The claims\<close>

subsection \<open>C1: update, then prove\<close>




subsection \<open>C2: the length of a hash path\<close>




subsection \<open>C3: a record of unexpected size\<close>

text \<open>
  Claim C3 says that a fetched record that is neither empty nor 64 bytes long makes
  \<open>updateElement\<close> fail. The code returns \<open>this.root\<close> instead: on a tree restored from a store
  whose root record is three bytes long, \<open>updateElement(0, v)\<close> returns the old root without
  any error and leaves the tree as it was.
\<close>

theorem stale_root_on_corrupt_record:
  "MerkleTree_new demo_hasher (db corrupt_tree) ''t'' 32 = Inr corrupt_tree
   \<and> db_get (db corrupt_tree) (root corrupt_tree) = [1, 2, 3]
   \<and> updateElement demo_hasher corrupt_tree 0 demo_value = Some (Inr (root corrupt_tree, corrupt_tree))"
proof -
  have len: "length (demo_key 9) = 32" by (simp add: demo_key_def)
  have rd: "readUInt32LE (demo_key 9 @ le32 1 @ [0, 0, 0, 0]) 32 = Inr 1"
    using len by (rule readUInt32LE_meta) simp_all
  have k: "demo_key 9 \<noteq> Buffer_from ''t''" by (simp add: demo_key_def demo_key_ne_name)
  have new: "MerkleTree_new demo_hasher (db corrupt_tree) ''t'' 32 = Inr corrupt_tree"
    using k len by (simp add: MerkleTree_new_def corrupt_tree_def rd MerkleTree_ctor_def MAX_DEPTH_def slice_def)
  have get: "db_get (db corrupt_tree) (root corrupt_tree) = [1, 2, 3]"
    by (simp add: corrupt_tree_def db_get_def)
  have rec: "updateElementRecursively demo_hasher (root corrupt_tree) (db corrupt_tree)
      (root corrupt_tree) 0 demo_value (depth corrupt_tree) = Some (root corrupt_tree, db corrupt_tree)"
    by (rule updateElementRecursively_falls_through) (simp_all add: get)
  have meta: "writeMetaData corrupt_tree = Inr corrupt_tree"
    using k by (simp add: writeMetaData_ok corrupt_tree_def meta_record_32[OF len] fun_upd_twist)
  have "updateElement demo_hasher corrupt_tree 0 demo_value = Some (Inr (root corrupt_tree, corrupt_tree))"
    by (simp add: updateElement_def rec meta)
  then show ?thesis using new get by simp
qed

subsection \<open>C4: argument validation\<close>

text \<open>
  Claim C4, as amended. Neither operation validates its arguments. \<open>getHashPath(index)\<close>
  returns what \<open>getHashPath(index mod 2^depth)\<close> returns; on a tree whose store holds the full
  tree, \<open>updateElement(index, v)\<close> succeeds for every integer index and every value of any
  length, does what \<open>updateElement(index mod 2^depth, v)\<close> does, and so sets the root to the
  Merkle root with \<open>hash(v)\<close> at leaf \<open>index mod 2^depth\<close> and rewrites the metadata record.
\<close>

theorem no_argument_validation:
  "getHashPath t index = getHashPath t (index mod 2 ^ nat (depth t))
   \<and> (hasher_ok H \<and> tree_inv H t vals \<longrightarrow>
        (\<exists>t'. updateElement H t index v = Some (Inr (getRoot t', t'))
           \<and> getRoot t' = mroot H (vals(nat (index mod 2 ^ nat (depth t)) := v)) (nat (depth t)) 0
           \<and> db t' (Buffer_from (name t)) = Some (getRoot t' @ le32 (depth t) @ [0, 0, 0, 0]))
        \<and> updateElement H t index v = updateElement H t (index mod 2 ^ nat (depth t)) v)"
proof (intro conjI impI)
  show "getHashPath t index = getHashPath t (index mod 2 ^ nat (depth t))"
    by (simp only: getHashPath_mod)
next
  assume "hasher_ok H \<and> tree_inv H t vals"
  then have H: "hasher_ok H" and inv: "tree_inv H t vals" by simp_all
  have len: "length (mroot H vals' (nat (depth t)) 0) = 32" for vals'
    using H by (rule length_mroot)
  show "\<exists>t'. updateElement H t index v = Some (Inr (getRoot t', t'))
           \<and> getRoot t' = mroot H (vals(nat (index mod 2 ^ nat (depth t)) := v)) (nat (depth t)) 0
           \<and> db t' (Buffer_from (name t)) = Some (getRoot t' @ le32 (depth t) @ [0, 0, 0, 0])"
    unfolding updateElement_result[OF H inv]
    by (simp add: getRoot_def leaf_of_def meta_record_32[OF len])
next
  assume "hasher_ok H \<and> tree_inv H t vals"
  then have H: "hasher_ok H" and inv: "tree_inv H t vals" by simp_all
  show "updateElement H t index v = updateElement H t (index mod 2 ^ nat (depth t)) v"
    by (simp only: updateElement_result[OF H inv] leaf_of_mod)
qed

theorem no_argument_validation_witness:
  "getHashPath demo_tree (- 1) = getHashPath demo_tree (- 1 mod 2 ^ nat (depth demo_tree))
   \<and> hasher_ok demo_hasher \<and> tree_inv demo_hasher demo_tree zero_vals
   \<and> (\<exists>t'. updateElement demo_hasher demo_tree 4 [7] = Some (Inr (getRoot t', t'))
         \<and> getRoot t' = mroot demo_hasher (zero_vals(nat (4 mod 2 ^ nat (depth demo_tree)) := [7]))
                           (nat (depth demo_tree)) 0
         \<and> db t' (Buffer_from (name demo_tree)) = Some (getRoot t' @ le32 (depth demo_tree) @ [0, 0, 0, 0]))
   \<and> updateElement demo_hasher demo_tree 4 [7]
       = updateElement demo_hasher demo_tree (4 mod 2 ^ nat (depth demo_tree)) [7]"
  using no_argument_validation[of demo_tree "- 1" demo_hasher zero_vals]
    no_argument_validation[of demo_tree 4 demo_hasher zero_vals "[7]"]
    demo_hasher_ok demo_inv
  by blast

text \<open>The claim as stated fails: on the fresh tree of depth 2, \<open>updateElement(4, v)\<close> returns a
  new root and writes node records, and \<open>getHashPath(-1)\<close> returns a path.\<close>

theorem no_validation_counterexample:
  "updateElement demo_hasher demo_tree (2 ^ 2) demo_value = Some (Inr (demo_key 22, demo_tree1))
   \<and> getRoot demo_tree = demo_key 21 \<and> getRoot demo_tree1 = demo_key 22
   \<and> db demo_tree (demo_key 22) = None
   \<and> db demo_tree1 (demo_key 22) = Some (demo_key 7 @ demo_key 6)
   \<and> getHashPath demo_tree (- 1) = [(demo_key 1, demo_key 1), (demo_key 6, demo_key 6)]"
proof -
  have u: "updateElement demo_hasher demo_tree (2 ^ 2) demo_value = Some (Inr (demo_key 22, demo_tree1))"
    by (rule demo_update) (simp add: leaf_of_def)
  have d: "depth demo_tree = 2" by (simp add: demo_tree_def)
  have l: "leaf_of (- 1) 2 = 3" by (simp add: leaf_of_def)
  have up: "[Suc 0..<3] = [Suc 0, 2]" by (simp add: upt_conv_Cons)
  have p: "getHashPath demo_tree (- 1) = [(demo_key 1, demo_key 1), (demo_key 6, demo_key 6)]"
    unfolding getHashPath_tree_inv[OF demo_hasher_ok demo_inv] d
    by (simp add: l up pair_at_def mroot_zero_vals demo_nodes demo_key_def del: default_node.simps mroot.simps)
  have k: "demo_key 22 \<noteq> Buffer_from ''t''" by (simp add: demo_key_def demo_key_ne_name)
  show ?thesis
    using u p k
    by (simp add: getRoot_def demo_tree1_def) (simp add: demo_tree_eq demo_key_def)
qed

subsection \<open>C5: the empty tree\<close>

text \<open>
  Claim C5. For every depth in \<open>[1, 32]\<close>, \<open>MerkleTree.new\<close> on a store without metadata for
  the name returns a tree whose root is \<open>hash\<close> of 64 zero bytes compressed with itself \<open>depth\<close>
  times; the store is the old one with one record per level, the default node of level
  \<open>k + 1\<close> holding the default node of level \<open>k\<close> twice (\<open>default_spine\<close>), and the metadata
  record.
\<close>

theorem new_empty_tree:
  assumes "d (Buffer_from n) = None" and "1 \<le> dep" and "dep \<le> 32"
  shows "MerkleTree_new H d n dep =
           Inr \<lparr>db = (default_spine H (nat dep) d)
                        (Buffer_from n \<mapsto> meta_record (default_node H (nat dep)) dep),
                name = n, depth = dep, root = default_node H (nat dep)\<rparr>
         \<and> getRoot \<lparr>db = (default_spine H (nat dep) d)
                        (Buffer_from n \<mapsto> meta_record (default_node H (nat dep)) dep),
                name = n, depth = dep, root = default_node H (nat dep)\<rparr>
            = ((\<lambda>h. compress H h h) ^^ nat dep) (hash H (replicate 64 0))"
  using assms
  by (simp add: MerkleTree_new_def MerkleTree_ctor_def MAX_DEPTH_def createEmptyTree_eq
      getRoot_def default_node_funpow)

theorem new_empty_tree_witness:
  "Map.empty (Buffer_from ''t'') = None \<and> (1::int) \<le> 2 \<and> (2::int) \<le> 32
   \<and> MerkleTree_new demo_hasher Map.empty ''t'' 2 = Inr demo_tree
   \<and> getRoot demo_tree = ((\<lambda>h. compress demo_hasher h h) ^^ 2) (hash demo_hasher (replicate 64 0))
   \<and> getRoot demo_tree = replicate 31 0 @ [21]"
  using new_empty_tree[of Map.empty "''t''" 2 demo_hasher]
  by (simp add: demo_tree_def getRoot_def demo_nodes del: default_node.simps)

subsection \<open>C6: the metadata record\<close>

text \<open>
  Claim C6, as amended. For a tree with a 32-byte root, \<open>writeMetaData\<close> stores under the
  name a record of 40 bytes: the root, the depth as a little-endian \<open>u32\<close>, and four zero
  bytes. \<open>MerkleTree.new\<close> on that store returns the tree with exactly this root and depth,
  whatever depth the caller passes, and leaves the store as it is.
\<close>

theorem metadata_roundtrip:
  assumes "length (root t) = 32" and "1 \<le> depth t" and "depth t \<le> 32"
  shows "writeMetaData t
           = Inr (t\<lparr>db := (db t)(Buffer_from (name t) \<mapsto> root t @ le32 (depth t) @ [0, 0, 0, 0])\<rparr>)
         \<and> length (root t @ le32 (depth t) @ [0, 0, 0, 0]) = 40
         \<and> MerkleTree_new H ((db t)(Buffer_from (name t) \<mapsto> root t @ le32 (depth t) @ [0, 0, 0, 0]))
              (name t) dep'
           = Inr (t\<lparr>db := (db t)(Buffer_from (name t) \<mapsto> root t @ le32 (depth t) @ [0, 0, 0, 0])\<rparr>)"
proof -
  have rd: "readUInt32LE (root t @ le32 (depth t) @ [0, 0, 0, 0]) 32 = Inr (depth t)"
    using assms by (intro readUInt32LE_meta) simp_all
  have sl: "slice (root t @ le32 (depth t) @ [0, 0, 0, 0]) 0 32 = root t"
    using assms(1) by (simp add: slice_def)
  show ?thesis
    using assms
    by (simp add: writeMetaData_ok meta_record_32 MerkleTree_new_def rd sl MerkleTree_ctor_def
        MAX_DEPTH_def) (simp add: le32_def)
qed

theorem metadata_roundtrip_witness:
  "length (root demo_tree) = 32 \<and> 1 \<le> depth demo_tree \<and> depth demo_tree \<le> 32
   \<and> writeMetaData demo_tree = Inr demo_tree
   \<and> db demo_tree (Buffer_from ''t'') = Some (replicate 31 0 @ [21, 2, 0, 0, 0, 0, 0, 0, 0])
   \<and> MerkleTree_new demo_hasher (db demo_tree) ''t'' 32 = Inr demo_tree"
  using metadata_roundtrip[of demo_tree demo_hasher 32]
  by (simp add: demo_tree_eq le32_def)

text \<open>The claim as stated fails: the record is not the root followed by the depth, and its
  length is not the hash size plus 4.\<close>

theorem metadata_size_counterexample:
  "MerkleTree_new demo_hasher Map.empty ''t'' 2 = Inr demo_tree
   \<and> length (root demo_tree) = 32
   \<and> db demo_tree (Buffer_from ''t'') = Some (root demo_tree @ le32 2 @ [0, 0, 0, 0])
   \<and> db demo_tree (Buffer_from ''t'') \<noteq> Some (root demo_tree @ le32 2)
   \<and> length (root demo_tree @ le32 2 @ [0, 0, 0, 0]) \<noteq> 32 + 4"
  by (simp add: demo_new) (simp add: demo_tree_eq le32_def)

subsection \<open>C7: updates at different indices commute\<close>




subsection \<open>C8: the order of a hash path\<close>

text \<open>
  Claim C8. On a tree whose store holds the full tree, the loop of \<open>getHashPath\<close> collects the
  pairs of layers \<open>depth, ..., 1\<close>, root first, and \<open>getHashPath\<close> returns them reversed: entry
  0 is the pair of leaf hashes around the index, the last entry is the pair of the root's
  children, which compresses to the root.
\<close>

theorem getHashPath_leaf_to_root:
  assumes H: "hasher_ok H" and inv: "tree_inv H t vals"
    and lo: "0 \<le> index" and hi: "index < 2 ^ nat (depth t)"
  shows "getHashPath_loop (db t) index (nat (depth t)) [] (root t) (depth t)
           = map (pair_at H vals (nat index)) (rev [1..<Suc (nat (depth t))])
         \<and> getHashPath t index = map (pair_at H vals (nat index)) [1..<Suc (nat (depth t))]
         \<and> getHashPath t index ! 0
             = (mroot H vals 0 (2 * (nat index div 2)), mroot H vals 0 (2 * (nat index div 2) + 1))
         \<and> last (getHashPath t index)
             = (mroot H vals (nat (depth t) - 1) 0, mroot H vals (nat (depth t) - 1) 1)
         \<and> compress H (fst (last (getHashPath t index))) (snd (last (getHashPath t index))) = getRoot t"
proof -
  let ?D = "nat (depth t)"
  have i: "leaf_of index ?D = nat index" using lo hi by (rule leaf_of_in_range)
  have dep: "1 \<le> depth t" and r: "root t = mroot H vals ?D 0"
    using inv by (simp_all add: tree_inv_def)
  obtain D' where D': "?D = Suc D'" using dep by (cases ?D) auto
  have loop: "getHashPath_loop (db t) index ?D [] (root t) (depth t)
           = map (pair_at H vals (nat index)) (rev [1..<Suc ?D])"
    using getHashPath_loop_tree_inv[OF H inv, of index] by (simp only: i)
  have path: "getHashPath t index = map (pair_at H vals (nat index)) [1..<Suc ?D]"
    using getHashPath_tree_inv[OF H inv, of index] by (simp only: i)
  have first: "getHashPath t index ! 0
      = (mroot H vals 0 (2 * (nat index div 2)), mroot H vals 0 (2 * (nat index div 2) + 1))"
    unfolding path D' by (simp add: upt_conv_Cons pair_at_def del: upt_Suc)
  have top: "nat index div 2 ^ ?D = 0"
    using leaf_of_less[of index ?D] by (simp add: i)
  have lst: "last (getHashPath t index) = (mroot H vals (?D - 1) 0, mroot H vals (?D - 1) 1)"
    unfolding path using top by (simp add: D' pair_at_def del: power_Suc)
  have "compress H (mroot H vals (?D - 1) 0) (mroot H vals (?D - 1) 1) = mroot H vals ?D 0"
    by (simp add: D')
  then show ?thesis
    using loop path first lst r by (simp add: getRoot_def)
qed

theorem getHashPath_leaf_to_root_witness:
  "hasher_ok demo_hasher \<and> tree_inv demo_hasher demo_tree zero_vals
   \<and> (0::int) \<le> 3 \<and> (3::int) < 2 ^ nat (depth demo_tree)
   \<and> getHashPath demo_tree 3 = [(demo_key 1, demo_key 1), (demo_key 6, demo_key 6)]
   \<and> compress demo_hasher (fst (last (getHashPath demo_tree 3))) (snd (last (getHashPath demo_tree 3)))
       = getRoot demo_tree"
proof -
  have d: "depth demo_tree = 2" by (simp add: demo_tree_def)
  have r: "(3::int) < 2 ^ nat (depth demo_tree)" by (simp add: d)
  have l: "(0::int) \<le> 3" by simp
  have u: "[1..<Suc (nat 2)] = [Suc 0, 2]" by (simp add: upt_conv_Cons)
  note inst = getHashPath_leaf_to_root[OF demo_hasher_ok demo_inv l r]
  have "getHashPath demo_tree 3
      = map (pair_at demo_hasher zero_vals (nat 3)) [1..<Suc (nat (depth demo_tree))]"
    using inst by blast
  then have p: "getHashPath demo_tree 3 = map (pair_at demo_hasher zero_vals (nat 3)) [1..<Suc (nat 2)]"
    by (simp only: d)
  have c: "compress demo_hasher (fst (last (getHashPath demo_tree 3))) (snd (last (getHashPath demo_tree 3)))
       = getRoot demo_tree"
    using inst by blast
  have "getHashPath demo_tree 3 = [(demo_key 1, demo_key 1), (demo_key 6, demo_key 6)]"
    unfolding p u
    by (simp add: pair_at_def mroot_zero_vals demo_nodes demo_key_def del: default_node.simps mroot.simps)
  then show ?thesis
    using c demo_hasher_ok demo_inv r by simp
qed

subsection \<open>C9: content addressing\<close>

text \<open>
  Claim C9. Whatever the store holds, \<open>MerkleTree.new\<close> and every \<open>updateElement\<close> call that
  returns write, apart from the metadata record under the name, only records \<open>l @ r\<close> under
  the key \<open>compress l r\<close>; and if every 64-byte record of the store was keyed by the
  compression of its halves before, so it is after.
\<close>

theorem content_addressing:
  "(MerkleTree_new H d n dep = Inr t0 \<longrightarrow>
      node_writes H d (db t0) (Buffer_from n)
      \<and> (content_addressed H d \<longrightarrow> content_addressed H (db t0)))
   \<and> (updateElement H t index v = Some (Inr (r, t')) \<longrightarrow>
      node_writes H (db t) (db t') (Buffer_from (name t))
      \<and> (content_addressed H (db t) \<longrightarrow> content_addressed H (db t')))"
proof (intro conjI impI)
  assume new: "MerkleTree_new H d n dep = Inr t0"
  have "node_writes H d (db t0) (Buffer_from n)
      \<and> (content_addressed H d \<longrightarrow> content_addressed H (db t0))"
  proof (cases "d (Buffer_from n)")
    case (Some meta)
    then have "db t0 = d"
      using new by (auto simp: MerkleTree_new_def MerkleTree_ctor_def split: sum.splits if_splits)
    then show ?thesis by (simp add: node_writes_refl)
  next
    case None
    then have dep: "1 \<le> dep" "dep \<le> 32"
      using new by (auto simp: MerkleTree_new_def MerkleTree_ctor_def MAX_DEPTH_def split: if_splits)
    have "db t0 = (default_spine H (nat dep) d)(Buffer_from n \<mapsto> meta_record (default_node H (nat dep)) dep)"
      using new None dep
      by (auto simp: MerkleTree_new_def MerkleTree_ctor_def MAX_DEPTH_def createEmptyTree_eq)
    then show ?thesis
      using default_spine_content[of H d "nat dep" "Buffer_from n"]
      by (auto simp: length_meta_record intro!: node_writes_put_name content_addressed_put_other)
  qed
  then show "node_writes H d (db t0) (Buffer_from n)"
    and "content_addressed H d \<Longrightarrow> content_addressed H (db t0)" by simp_all
next
  assume upd: "updateElement H t index v = Some (Inr (r, t'))"
  then obtain h d1 where rec: "updateElementRecursively H (root t) (db t) (root t) index v (depth t) = Some (h, d1)"
    and meta: "writeMetaData (t\<lparr>db := d1, root := h\<rparr>) = Inr t'"
    by (auto simp: updateElement_def split: option.splits sum.splits)
  note c = updateElementRecursively_content[OF rec, of "Buffer_from (name t)"]
  note m = writeMetaData_content[OF meta, of H]
  show "node_writes H (db t) (db t') (Buffer_from (name t))"
    using c m(1)[of "db t"] by simp
  show "content_addressed H (db t) \<Longrightarrow> content_addressed H (db t')"
    using c m(2) by simp
qed

theorem content_addressing_witness:
  "MerkleTree_new demo_hasher Map.empty ''t'' 2 = Inr demo_tree
   \<and> node_writes demo_hasher Map.empty (db demo_tree) (Buffer_from ''t'')
   \<and> content_addressed demo_hasher Map.empty
   \<and> content_addressed demo_hasher (db demo_tree)
   \<and> updateElement demo_hasher demo_tree 0 demo_value = Some (Inr (demo_key 22, demo_tree1))
   \<and> node_writes demo_hasher (db demo_tree) (db demo_tree1) (Buffer_from (name demo_tree))
   \<and> content_addressed demo_hasher (db demo_tree1)"
proof -
  have e: "content_addressed demo_hasher Map.empty" by (simp add: content_addressed_def)
  have u: "updateElement demo_hasher demo_tree 0 demo_value = Some (Inr (demo_key 22, demo_tree1))"
    by (rule demo_update) (simp add: leaf_of_def)
  show ?thesis
    using content_addressing[of demo_hasher Map.empty "''t''" 2 demo_tree demo_tree 0 demo_value
        "demo_key 22" demo_tree1] demo_new e u
    by blast
qed

subsection \<open>C10: the empty-record branch is reached at layer 0 only\<close>




end
